theory Spec2Isabelle
  imports Complex_Main "HOL-Library.Sublist"
begin

section \<open>Shared data model\<close>

text \<open>
  The pydantic model \<^verbatim>\<open>User\<close> of every service: an optional identity and three
  attributes. The field \<^verbatim>\<open>id\<close> is called \<open>user_id\<close> here.
\<close>

record User =
  user_id :: "int option"
  name :: string
  email :: string
  age :: int

text \<open>
  Exceptions that the handlers can see: a durable-store call that raises for reasons of
  the environment, a violated unique constraint, Python's \<^verbatim>\<open>KeyError\<close> on a
  dictionary that lacks a key, and a cache-store call that raises.
\<close>

datatype exn = ConnectionError | UniqueViolation | KeyError | RedisError

subsection \<open>The durable store\<close>

text \<open>
  Modelled from the spec: the \<^verbatim>\<open>users\<close> table, whose DDL is not among the sources.
  The SQL of the services fixes what is needed of it: an identity column \<^verbatim>\<open>id\<close> that
  the store assigns from a sequence (no \<^verbatim>\<open>INSERT\<close> names it), the attributes
  \<^verbatim>\<open>name\<close>, \<^verbatim>\<open>email\<close>, \<^verbatim>\<open>age\<close>, and a unique constraint on \<^verbatim>\<open>email\<close>
  (the conflict target of the upsert). The table is a list of rows in insertion order.
  \<open>calls\<close> counts the statements sent to the store so far; a fault schedule
  \<open>flt :: nat \<Rightarrow> bool\<close> tells for each statement number whether that statement raises
  instead of executing.
\<close>

record row =
  row_id :: int
  row_name :: string
  row_email :: string
  row_age :: int

record database =
  rows :: "row list"
  next_id :: int
  calls :: nat

definition sent :: "database \<Rightarrow> database" where
  "sent d = d\<lparr>calls := Suc (calls d)\<rparr>"

definition lookup_row :: "int \<Rightarrow> row list \<Rightarrow> row option" where
  "lookup_row i rs = find (\<lambda>r. row_id r = i) rs"

definition email_taken :: "string \<Rightarrow> row list \<Rightarrow> bool" where
  "email_taken e rs = (find (\<lambda>r. row_email r = e) rs \<noteq> None)"

definition email_taken_by_other :: "int \<Rightarrow> string \<Rightarrow> row list \<Rightarrow> bool" where
  "email_taken_by_other i e rs = (find (\<lambda>r. row_email r = e \<and> row_id r \<noteq> i) rs \<noteq> None)"

definition set_row :: "int \<Rightarrow> string \<Rightarrow> string \<Rightarrow> int \<Rightarrow> row list \<Rightarrow> row list" where
  "set_row i n e a rs =
     map (\<lambda>r. if row_id r = i then r\<lparr>row_name := n, row_email := e, row_age := a\<rparr> else r) rs"

definition set_by_email :: "string \<Rightarrow> string \<Rightarrow> int \<Rightarrow> row list \<Rightarrow> row list" where
  "set_by_email e n a rs =
     map (\<lambda>r. if row_email r = e then r\<lparr>row_name := n, row_age := a\<rparr> else r) rs"

definition user_of_row :: "row \<Rightarrow> User" where
  "user_of_row r = \<lparr>user_id = Some (row_id r), name = row_name r, email = row_email r, age = row_age r\<rparr>"

text \<open>\<^verbatim>\<open>SELECT id, name, email, age FROM users WHERE id = $1\<close>\<close>

definition db_select :: "(nat \<Rightarrow> bool) \<Rightarrow> int \<Rightarrow> database \<Rightarrow> (exn + row option) \<times> database" where
  "db_select flt i d =
     (if flt (calls d) then (Inl ConnectionError, sent d)
      else (Inr (lookup_row i (rows d)), sent d))"

text \<open>
  \<^verbatim>\<open>INSERT INTO users (name, email, age) VALUES ($1, $2, $3)
  ON CONFLICT (email) DO UPDATE SET name = EXCLUDED.name, age = EXCLUDED.age\<close>.
  The sequence value is drawn before the conflict is seen, so it is used up either way.
\<close>

definition db_upsert :: "(nat \<Rightarrow> bool) \<Rightarrow> string \<Rightarrow> string \<Rightarrow> int \<Rightarrow> database \<Rightarrow> (exn + unit) \<times> database" where
  "db_upsert flt n e a d =
     (if flt (calls d) then (Inl ConnectionError, sent d)
      else if email_taken e (rows d)
        then (Inr (), sent (d\<lparr>rows := set_by_email e n a (rows d), next_id := next_id d + 1\<rparr>))
      else (Inr (), sent (d\<lparr>rows := rows d @ [\<lparr>row_id = next_id d, row_name = n, row_email = e, row_age = a\<rparr>],
                               next_id := next_id d + 1\<rparr>)))"

text \<open>
  \<^verbatim>\<open>UPDATE users SET name = $1, email = $2, age = $3, ... WHERE id = $4\<close>, with or
  without \<^verbatim>\<open>RETURNING\<close>: the result is the updated row, or nothing when no row has
  the identity (a NULL identity matches no row).
\<close>

definition db_update :: "(nat \<Rightarrow> bool) \<Rightarrow> string \<Rightarrow> string \<Rightarrow> int \<Rightarrow> int option \<Rightarrow> database
    \<Rightarrow> (exn + row option) \<times> database" where
  "db_update flt n e a io d =
     (if flt (calls d) then (Inl ConnectionError, sent d)
      else (case io of
              None \<Rightarrow> (Inr None, sent d)
            | Some i \<Rightarrow>
                (case lookup_row i (rows d) of
                   None \<Rightarrow> (Inr None, sent d)
                 | Some r \<Rightarrow>
                     if email_taken_by_other i e (rows d) then (Inl UniqueViolation, sent d)
                     else (Inr (Some (r\<lparr>row_name := n, row_email := e, row_age := a\<rparr>)),
                           sent (d\<lparr>rows := set_row i n e a (rows d)\<rparr>)))))"

text \<open>
  \<^verbatim>\<open>DELETE FROM users WHERE id = $1\<close>; the result is the number of rows deleted
  (a NULL identity matches no row).
\<close>

definition db_delete :: "(nat \<Rightarrow> bool) \<Rightarrow> int option \<Rightarrow> database \<Rightarrow> (exn + nat) \<times> database" where
  "db_delete flt io d =
     (if flt (calls d) then (Inl ConnectionError, sent d)
      else (case io of
              None \<Rightarrow> (Inr 0, sent d)
            | Some i \<Rightarrow>
                (Inr (length (filter (\<lambda>r. row_id r = i) (rows d))),
                 sent (d\<lparr>rows := filter (\<lambda>r. row_id r \<noteq> i) (rows d)\<rparr>))))"

subsection \<open>The cache store\<close>

text \<open>
  The cache maps the key \<^verbatim>\<open>user:<id>\<close>, written here as the identity itself, to the
  stored snapshot and its remaining lifetime in seconds. The serialised JSON of a
  snapshot is never the empty string, so the test \<^verbatim>\<open>if cached\<close> is the test that the
  key is present. Calls to the cache store are taken to succeed.
\<close>

type_synonym cache_store = "int \<rightharpoonup> (User \<times> int)"

definition redis_get :: "cache_store \<Rightarrow> int \<Rightarrow> User option" where
  "redis_get c k = map_option fst (c k)"

definition redis_setex :: "cache_store \<Rightarrow> int \<Rightarrow> int \<Rightarrow> User \<Rightarrow> cache_store" where
  "redis_setex c k t u = c(k \<mapsto> (u, t))"

definition redis_delete :: "cache_store \<Rightarrow> int \<Rightarrow> cache_store" where
  "redis_delete c k = c(k := None)"

text \<open>\<^verbatim>\<open>TTL\<close> answers -2 for a key that does not exist.\<close>

definition redis_ttl :: "cache_store \<Rightarrow> int \<Rightarrow> int" where
  "redis_ttl c k = (case c k of None \<Rightarrow> -2 | Some (u, t) \<Rightarrow> t)"

section \<open>Write-behind service\<close>


definition BATCH_SIZE :: nat where
  "BATCH_SIZE = 10"

datatype operation = Create | Update | Delete

text \<open>
  The \<^verbatim>\<open>user\<close> entry of a queued write: the full dump of a \<^verbatim>\<open>User\<close> for create and
  update, the dictionary \<^verbatim>\<open>{"id": user_id}\<close> for delete.
\<close>

datatype payload = Dump User | IdOnly int

record queued_write =
  operation :: operation
  user :: payload
  timestamp :: string

record write_stats =
  cached_writes :: nat
  db_flushes :: nat
  pending_writes :: nat
  last_flush :: "string option"

text \<open>
  The state of the service: the cache, the list \<^verbatim>\<open>write_queue\<close> and the counter
  \<^verbatim>\<open>user_id_counter\<close> of the cache store, the durable store, the statistics, and the
  writes for which the flush logged \<^verbatim>\<open>Failed to flush write\<close>, oldest first.
\<close>

record wb_state =
  wb_cache :: cache_store
  write_queue :: "queued_write list"
  user_id_counter :: int
  wb_db :: database
  wb_stats :: write_stats
  flush_errors :: "(queued_write \<times> exn) list"

text \<open>Subscripting the payload: a missing key raises.\<close>

fun payload_id :: "payload \<Rightarrow> exn + int option" where
  "payload_id (Dump u) = Inr (user_id u)"
| "payload_id (IdOnly i) = Inr (Some i)"

fun payload_user :: "payload \<Rightarrow> exn + User" where
  "payload_user (Dump u) = Inr u"
| "payload_user (IdOnly i) = Inl KeyError"

text \<open>The body of the \<^verbatim>\<open>try\<close> in the flush loop, up to the counter update.\<close>

definition apply_write :: "(nat \<Rightarrow> bool) \<Rightarrow> queued_write \<Rightarrow> database \<Rightarrow> (exn + unit) \<times> database" where
  "apply_write flt w d =
     (case operation w of
        Create \<Rightarrow>
          (case payload_user (user w) of
             Inl e \<Rightarrow> (Inl e, d)
           | Inr u \<Rightarrow> db_upsert flt (name u) (email u) (age u) d)
      | Update \<Rightarrow>
          (case payload_user (user w) of
             Inl e \<Rightarrow> (Inl e, d)
           | Inr u \<Rightarrow>
               (case db_update flt (name u) (email u) (age u) (user_id u) d of
                  (Inl e, d') \<Rightarrow> (Inl e, d')
                | (Inr r, d') \<Rightarrow> (Inr (), d')))
      | Delete \<Rightarrow>
          (case payload_id (user w) of
             Inl e \<Rightarrow> (Inl e, d)
           | Inr io \<Rightarrow>
               (case db_delete flt io d of
                  (Inl e, d') \<Rightarrow> (Inl e, d')
                | (Inr c, d') \<Rightarrow> (Inr (), d'))))"

text \<open>One pass of the loop \<^verbatim>\<open>for write in writes\<close>.\<close>

definition flush_one :: "(nat \<Rightarrow> bool) \<Rightarrow> queued_write \<Rightarrow> wb_state \<Rightarrow> wb_state" where
  "flush_one flt w s =
     (case apply_write flt w (wb_db s) of
        (Inr u, d') \<Rightarrow>
          s\<lparr>wb_db := d', wb_stats := (wb_stats s)\<lparr>db_flushes := db_flushes (wb_stats s) + 1\<rparr>\<rparr>
      | (Inl e, d') \<Rightarrow>
          s\<lparr>wb_db := d', flush_errors := flush_errors s @ [(w, e)],
            write_queue := write_queue s @ [w]\<rparr>)"

fun flush_writes :: "(nat \<Rightarrow> bool) \<Rightarrow> queued_write list \<Rightarrow> wb_state \<Rightarrow> wb_state" where
  "flush_writes flt [] s = s"
| "flush_writes flt (w # ws) s = flush_writes flt ws (flush_one flt w s)"

text \<open>
  The loop \<^verbatim>\<open>for _ in range(BATCH_SIZE)\<close> that pops from the head of the queue until
  the queue is empty: the writes popped, and the queue that is left.
\<close>

fun pop_batch :: "nat \<Rightarrow> queued_write list \<Rightarrow> queued_write list \<times> queued_write list" where
  "pop_batch 0 q = ([], q)"
| "pop_batch (Suc n) [] = ([], [])"
| "pop_batch (Suc n) (w # q) = (case pop_batch n q of (ws, q') \<Rightarrow> (w # ws, q'))"

definition flush_to_database :: "(nat \<Rightarrow> bool) \<Rightarrow> string \<Rightarrow> wb_state \<Rightarrow> wb_state" where
  "flush_to_database flt now s =
     (case pop_batch BATCH_SIZE (write_queue s) of
        (writes, q') \<Rightarrow>
          if writes = [] then s\<lparr>write_queue := q'\<rparr>
          else
            (let s1 = flush_writes flt writes (s\<lparr>write_queue := q'\<rparr>);
                 s2 = s1\<lparr>wb_stats := (wb_stats s1)\<lparr>last_flush := Some now\<rparr>\<rparr>
             in s2\<lparr>wb_stats := (wb_stats s2)\<lparr>pending_writes := length (write_queue s2)\<rparr>\<rparr>))"


definition enqueue :: "queued_write \<Rightarrow> wb_state \<Rightarrow> wb_state" where
  "enqueue w s =
     (let s1 = s\<lparr>write_queue := write_queue s @ [w]\<rparr>;
          s2 = s1\<lparr>wb_stats := (wb_stats s1)\<lparr>cached_writes := cached_writes (wb_stats s1) + 1\<rparr>\<rparr>
      in s2\<lparr>wb_stats := (wb_stats s2)\<lparr>pending_writes := length (write_queue s2)\<rparr>\<rparr>)"



definition wb_delete_user :: "string \<Rightarrow> int \<Rightarrow> wb_state \<Rightarrow> wb_state" where
  "wb_delete_user now uid s =
     enqueue \<lparr>operation = Delete, user = IdOnly uid, timestamp = now\<rparr>
       (s\<lparr>wb_cache := redis_delete (wb_cache s) uid\<rparr>)"

text \<open>
  What a handler of the HTTP layer answers: a status code with an optional body, or an
  exception that no handler catches (the framework answers 500).
\<close>

datatype response = Response nat "User option" | Unhandled exn

text \<open>The handlers \<^verbatim>\<open>DELETE /users/{user_id}\<close> (declared with status 204) and \<^verbatim>\<open>POST /flush\<close>.\<close>

definition wb_delete_user_endpoint :: "string \<Rightarrow> int \<Rightarrow> wb_state \<Rightarrow> response \<times> wb_state" where
  "wb_delete_user_endpoint now uid s = (Response 204 None, wb_delete_user now uid s)"

definition force_flush :: "(nat \<Rightarrow> bool) \<Rightarrow> string \<Rightarrow> wb_state \<Rightarrow> response \<times> wb_state" where
  "force_flush flt now s = (Response 202 None, flush_to_database flt now s)"


text \<open>
  Following the spec's words for a flush tick (section 4.3), not the code: the popped
  mutations are applied to the durable store one after the other; a mutation whose
  application fails is to be re-appended to the tail, and the remainder of the batch is
  still applied. The result is the store after the batch and the mutations to re-append,
  in batch order. The flush of the code is compared with it below.
\<close>

fun spec_apply_batch :: "(nat \<Rightarrow> bool) \<Rightarrow> queued_write list \<Rightarrow> database \<Rightarrow> database \<times> queued_write list" where
  "spec_apply_batch flt [] d = (d, [])"
| "spec_apply_batch flt (w # ws) d =
     (case apply_write flt w d of
        (Inr u, d') \<Rightarrow> spec_apply_batch flt ws d'
      | (Inl e, d') \<Rightarrow> (case spec_apply_batch flt ws d' of (d'', again) \<Rightarrow> (d'', w # again)))"

section \<open>Write-through service\<close>

definition WT_CACHE_TTL :: int where
  "WT_CACHE_TTL = 600"

record wt_state =
  wt_cache :: cache_store
  wt_db :: database

text \<open>
  \<^verbatim>\<open>WriteThroughCache.update_user\<close>: the durable update first, then the cache. The
  \<^verbatim>\<open>except\<close> branch deletes the cache key and raises the exception again.
\<close>

definition wt_update_user :: "(nat \<Rightarrow> bool) \<Rightarrow> int \<Rightarrow> User \<Rightarrow> wt_state \<Rightarrow> (exn + User option) \<times> wt_state" where
  "wt_update_user flt uid u s =
     (case db_update flt (name u) (email u) (age u) (Some uid) (wt_db s) of
        (Inl e, d') \<Rightarrow> (Inl e, s\<lparr>wt_db := d', wt_cache := redis_delete (wt_cache s) uid\<rparr>)
      | (Inr None, d') \<Rightarrow> (Inr None, s\<lparr>wt_db := d'\<rparr>)
      | (Inr (Some r), d') \<Rightarrow>
          (Inr (Some (user_of_row r)),
           s\<lparr>wt_db := d', wt_cache := redis_setex (wt_cache s) uid WT_CACHE_TTL (user_of_row r)\<rparr>))"

section \<open>Refresh-ahead service\<close>

text \<open>
  The constants of the service. The threshold 0.75 and the product \<open>60 * (1 - 0.75) = 15\<close>
  are exact in binary floating point, so the comparison of the integer lifetime with the
  product is the comparison of rationals.
\<close>

definition RA_CACHE_TTL :: int where
  "RA_CACHE_TTL = 60"

definition REFRESH_THRESHOLD :: rat where
  "REFRESH_THRESHOLD = 3 / 4"

definition ACCESS_THRESHOLD :: int where
  "ACCESS_THRESHOLD = 3"

record refresh_stats =
  total_reads :: nat
  cache_hits :: nat
  cache_misses :: nat
  proactive_refreshes :: nat
  hot_items :: nat

text \<open>
  The state of the service: the cache, the hash \<^verbatim>\<open>access_counts\<close> and the set
  \<^verbatim>\<open>hot_items\<close> of the cache store, the durable store, the statistics, and the keys for
  which the refresh logged \<^verbatim>\<open>Failed to refresh\<close>, oldest first. The members of the hot
  set are the keys \<^verbatim>\<open>user:<id>\<close> that the access tracker added, written as the
  identities; the list gives the order in which a scan meets them.
\<close>

record ra_state =
  ra_cache :: cache_store
  access_counts :: "int \<rightharpoonup> int"
  hot_set :: "int list"
  ra_db :: database
  ra_stats :: refresh_stats
  refresh_errors :: "(int \<times> exn) list"

definition sadd :: "int \<Rightarrow> int list \<Rightarrow> int list" where
  "sadd k xs = List.insert k xs"

definition srem :: "int \<Rightarrow> int list \<Rightarrow> int list" where
  "srem k xs = removeAll k xs"

definition scard :: "int list \<Rightarrow> nat" where
  "scard xs = length (remdups xs)"

definition below_threshold :: "int \<Rightarrow> bool" where
  "below_threshold ttl = (of_int ttl < of_int RA_CACHE_TTL * (1 - REFRESH_THRESHOLD))"

text \<open>\<^verbatim>\<open>_refresh_user\<close>: reload from the durable store; nothing is written when no row is found.\<close>

definition refresh_user :: "(nat \<Rightarrow> bool) \<Rightarrow> int \<Rightarrow> ra_state \<Rightarrow> (exn + unit) \<times> ra_state" where
  "refresh_user flt uid s =
     (case db_select flt uid (ra_db s) of
        (Inl e, d') \<Rightarrow> (Inl e, s\<lparr>ra_db := d'\<rparr>)
      | (Inr None, d') \<Rightarrow> (Inr (), s\<lparr>ra_db := d'\<rparr>)
      | (Inr (Some r), d') \<Rightarrow>
          (Inr (), s\<lparr>ra_db := d', ra_cache := redis_setex (ra_cache s) uid RA_CACHE_TTL (user_of_row r)\<rparr>))"

text \<open>The body of the loop \<^verbatim>\<open>for item_key in hot_items\<close>, with its \<^verbatim>\<open>try\<close>.\<close>

definition refresh_item :: "(nat \<Rightarrow> bool) \<Rightarrow> int \<Rightarrow> ra_state \<Rightarrow> ra_state" where
  "refresh_item flt k s =
     (let ttl = redis_ttl (ra_cache s) k in
      if ttl \<le> 0 then s\<lparr>hot_set := srem k (hot_set s)\<rparr>
      else if below_threshold ttl then
        (case refresh_user flt k s of
           (Inr u, s') \<Rightarrow>
             s'\<lparr>ra_stats := (ra_stats s')\<lparr>proactive_refreshes := proactive_refreshes (ra_stats s') + 1\<rparr>\<rparr>
         | (Inl e, s') \<Rightarrow> s'\<lparr>refresh_errors := refresh_errors s' @ [(k, e)]\<rparr>)
      else s)"

fun refresh_items :: "(nat \<Rightarrow> bool) \<Rightarrow> int list \<Rightarrow> ra_state \<Rightarrow> ra_state" where
  "refresh_items flt [] s = s"
| "refresh_items flt (k # ks) s = refresh_items flt ks (refresh_item flt k s)"

text \<open>\<^verbatim>\<open>_refresh_hot_items\<close>: one refresh tick over a snapshot of the hot set.\<close>

definition refresh_hot_items :: "(nat \<Rightarrow> bool) \<Rightarrow> ra_state \<Rightarrow> ra_state" where
  "refresh_hot_items flt s =
     (let hot = hot_set s in
      if hot = [] then s
      else (let s1 = refresh_items flt hot s
            in s1\<lparr>ra_stats := (ra_stats s1)\<lparr>hot_items := scard (hot_set s1)\<rparr>\<rparr>))"

text \<open>\<^verbatim>\<open>_track_access\<close>: \<^verbatim>\<open>HINCRBY\<close> starts a missing field at 0.\<close>

definition track_access :: "int \<Rightarrow> ra_state \<Rightarrow> ra_state" where
  "track_access uid s =
     (let access_count = (case access_counts s uid of None \<Rightarrow> 0 | Some c \<Rightarrow> c) + 1;
          s1 = s\<lparr>access_counts := (access_counts s)(uid \<mapsto> access_count)\<rparr>
      in if access_count \<ge> ACCESS_THRESHOLD
         then (let s2 = s1\<lparr>hot_set := sadd uid (hot_set s1)\<rparr>
               in s2\<lparr>ra_stats := (ra_stats s2)\<lparr>hot_items := scard (hot_set s2)\<rparr>\<rparr>)
         else s1)"

definition ra_get_user :: "(nat \<Rightarrow> bool) \<Rightarrow> int \<Rightarrow> ra_state \<Rightarrow> (exn + User option) \<times> ra_state" where
  "ra_get_user flt uid s =
     (let s1 = track_access uid s in
      case redis_get (ra_cache s1) uid of
        Some u \<Rightarrow>
          (Inr (Some u), s1\<lparr>ra_stats := (ra_stats s1)\<lparr>cache_hits := cache_hits (ra_stats s1) + 1\<rparr>\<rparr>)
      | None \<Rightarrow>
          (let s2 = s1\<lparr>ra_stats := (ra_stats s1)\<lparr>cache_misses := cache_misses (ra_stats s1) + 1\<rparr>\<rparr>
           in case db_select flt uid (ra_db s2) of
                (Inl e, d') \<Rightarrow> (Inl e, s2\<lparr>ra_db := d'\<rparr>)
              | (Inr None, d') \<Rightarrow> (Inr None, s2\<lparr>ra_db := d'\<rparr>)
              | (Inr (Some r), d') \<Rightarrow>
                  (Inr (Some (user_of_row r)),
                   s2\<lparr>ra_db := d',
                      ra_cache := redis_setex (ra_cache s2) uid RA_CACHE_TTL (user_of_row r)\<rparr>)))"

text \<open>
  \<^verbatim>\<open>INSERT INTO users (name, email, age) VALUES ($1, $2, $3) RETURNING ...\<close>: the new
  row, or the violation of the unique constraint on \<^verbatim>\<open>email\<close>.
\<close>

definition db_insert :: "(nat \<Rightarrow> bool) \<Rightarrow> string \<Rightarrow> string \<Rightarrow> int \<Rightarrow> database \<Rightarrow> (exn + row) \<times> database" where
  "db_insert flt n e a d =
     (if flt (calls d) then (Inl ConnectionError, sent d)
      else if email_taken e (rows d) then (Inl UniqueViolation, sent (d\<lparr>next_id := next_id d + 1\<rparr>))
      else (let r = \<lparr>row_id = next_id d, row_name = n, row_email = e, row_age = a\<rparr>
            in (Inr r, sent (d\<lparr>rows := rows d @ [r], next_id := next_id d + 1\<rparr>))))"

definition ra_create_user :: "(nat \<Rightarrow> bool) \<Rightarrow> User \<Rightarrow> ra_state \<Rightarrow> (exn + User) \<times> ra_state" where
  "ra_create_user flt u s =
     (case db_insert flt (name u) (email u) (age u) (ra_db s) of
        (Inl e, d') \<Rightarrow> (Inl e, s\<lparr>ra_db := d'\<rparr>)
      | (Inr r, d') \<Rightarrow>
          (Inr (user_of_row r),
           s\<lparr>ra_db := d', ra_cache := redis_setex (ra_cache s) (row_id r) RA_CACHE_TTL (user_of_row r)\<rparr>))"

definition ra_update_user :: "(nat \<Rightarrow> bool) \<Rightarrow> int \<Rightarrow> User \<Rightarrow> ra_state \<Rightarrow> (exn + User option) \<times> ra_state" where
  "ra_update_user flt uid u s =
     (case db_update flt (name u) (email u) (age u) (Some uid) (ra_db s) of
        (Inl e, d') \<Rightarrow> (Inl e, s\<lparr>ra_db := d'\<rparr>)
      | (Inr None, d') \<Rightarrow> (Inr None, s\<lparr>ra_db := d'\<rparr>)
      | (Inr (Some r), d') \<Rightarrow>
          (Inr (Some (user_of_row r)),
           s\<lparr>ra_db := d', ra_cache := redis_setex (ra_cache s) uid RA_CACHE_TTL (user_of_row r)\<rparr>))"

text \<open>
  \<^verbatim>\<open>RefreshAheadCache.delete_user\<close>: after a durable delete that removed a row, the key
  leaves the cache, the hot set and the access counts.
\<close>

definition ra_delete_user :: "(nat \<Rightarrow> bool) \<Rightarrow> int \<Rightarrow> ra_state \<Rightarrow> (exn + bool) \<times> ra_state" where
  "ra_delete_user flt uid s =
     (case db_delete flt (Some uid) (ra_db s) of
        (Inl e, d') \<Rightarrow> (Inl e, s\<lparr>ra_db := d'\<rparr>)
      | (Inr c, d') \<Rightarrow>
          if c = 0 then (Inr False, s\<lparr>ra_db := d'\<rparr>)
          else (Inr True,
                s\<lparr>ra_db := d', ra_cache := redis_delete (ra_cache s) uid,
                  hot_set := srem uid (hot_set s),
                  access_counts := (access_counts s)(uid := None)\<rparr>))"

text \<open>
  The handlers of the HTTP layer, each taken as a whole: what a handler does when it runs
  from its first line to its answer with no other handler in between and no cache call
  raising. The read handler is taken apart at its awaits further below.
\<close>

definition ra_get_user_endpoint :: "(nat \<Rightarrow> bool) \<Rightarrow> int \<Rightarrow> ra_state \<Rightarrow> response \<times> ra_state" where
  "ra_get_user_endpoint flt uid s =
     (let s1 = s\<lparr>ra_stats := (ra_stats s)\<lparr>total_reads := total_reads (ra_stats s) + 1\<rparr>\<rparr>
      in case ra_get_user flt uid s1 of
           (Inl e, s') \<Rightarrow> (Unhandled e, s')
         | (Inr None, s') \<Rightarrow> (Response 404 None, s')
         | (Inr (Some u), s') \<Rightarrow> (Response 200 (Some u), s'))"

definition ra_create_user_endpoint :: "(nat \<Rightarrow> bool) \<Rightarrow> User \<Rightarrow> ra_state \<Rightarrow> response \<times> ra_state" where
  "ra_create_user_endpoint flt u s =
     (case ra_create_user flt u s of
        (Inl e, s') \<Rightarrow> (Unhandled e, s')
      | (Inr u', s') \<Rightarrow> (Response 201 (Some u'), s'))"

definition ra_update_user_endpoint :: "(nat \<Rightarrow> bool) \<Rightarrow> int \<Rightarrow> User \<Rightarrow> ra_state \<Rightarrow> response \<times> ra_state" where
  "ra_update_user_endpoint flt uid u s =
     (case ra_update_user flt uid u s of
        (Inl e, s') \<Rightarrow> (Unhandled e, s')
      | (Inr None, s') \<Rightarrow> (Response 404 None, s')
      | (Inr (Some u'), s') \<Rightarrow> (Response 200 (Some u'), s'))"

definition ra_delete_user_endpoint :: "(nat \<Rightarrow> bool) \<Rightarrow> int \<Rightarrow> ra_state \<Rightarrow> response \<times> ra_state" where
  "ra_delete_user_endpoint flt uid s =
     (case ra_delete_user flt uid s of
        (Inl e, s') \<Rightarrow> (Unhandled e, s')
      | (Inr False, s') \<Rightarrow> (Response 404 None, s')
      | (Inr True, s') \<Rightarrow> (Response 204 None, s'))"

text \<open>
  Everything that acts on the state of the service: the handlers (the two that only
  read, \<^verbatim>\<open>/stats\<close> and \<^verbatim>\<open>/hot-items\<close>, leave it as it is) and the tick of the refresh
  worker.
\<close>

datatype ra_request =
  GetUser int | CreateUser User | UpdateUser int User | DeleteUser int
  | GetStats | GetHotItems | RefreshTick

fun ra_handle :: "(nat \<Rightarrow> bool) \<Rightarrow> ra_request \<Rightarrow> ra_state \<Rightarrow> ra_state" where
  "ra_handle flt (GetUser uid) s = snd (ra_get_user_endpoint flt uid s)"
| "ra_handle flt (CreateUser u) s = snd (ra_create_user_endpoint flt u s)"
| "ra_handle flt (UpdateUser uid u) s = snd (ra_update_user_endpoint flt uid u s)"
| "ra_handle flt (DeleteUser uid) s = snd (ra_delete_user_endpoint flt uid s)"
| "ra_handle flt GetStats s = s"
| "ra_handle flt GetHotItems s = s"
| "ra_handle flt RefreshTick s = refresh_hot_items flt s"

fun ra_run :: "(nat \<Rightarrow> bool) \<Rightarrow> ra_request list \<Rightarrow> ra_state \<Rightarrow> ra_state" where
  "ra_run flt [] s = s"
| "ra_run flt (r # rs) s = ra_run flt rs (ra_handle flt r s)"

text \<open>The service at start: empty cache store, zeroed statistics, any durable store.\<close>

definition ra_init :: "database \<Rightarrow> ra_state" where
  "ra_init d =
     \<lparr>ra_cache = Map.empty, access_counts = Map.empty, hot_set = [], ra_db = d,
      ra_stats = \<lparr>total_reads = 0, cache_hits = 0, cache_misses = 0,
                  proactive_refreshes = 0, hot_items = 0\<rparr>,
      refresh_errors = []\<rparr>"

text \<open>The three counters of the statistics that reads maintain: reads, hits, misses.\<close>

definition read_counters :: "ra_state \<Rightarrow> nat \<times> nat \<times> nat" where
  "read_counters s =
     (total_reads (ra_stats s), cache_hits (ra_stats s), cache_misses (ra_stats s))"

definition balanced :: "ra_state \<Rightarrow> bool" where
  "balanced s = (cache_hits (ra_stats s) + cache_misses (ra_stats s) = total_reads (ra_stats s))"


subsection \<open>A read between its awaits\<close>

text \<open>
  The read handler is a coroutine. It counts the read in \<^verbatim>\<open>total_reads\<close> first and
  then awaits, one after the other, \<^verbatim>\<open>HINCRBY\<close>, for a key that has reached the access
  threshold \<^verbatim>\<open>SADD\<close> and \<^verbatim>\<open>SCARD\<close>, then \<^verbatim>\<open>GET\<close>, after a miss the durable
  \<^verbatim>\<open>SELECT\<close>, and for a row found \<^verbatim>\<open>SETEX\<close>. At each await other handlers may run;
  between two awaits the handler runs undisturbed. \<open>read_pc\<close> names the call that a
  running read waits for. A step of a read is the awaited call together with the code up
  to the next await: here a call to the cache store may raise (\<open>ok\<close> is false), which
  ends the read with an exception that nothing catches; the durable call raises as the
  fault schedule says.
\<close>

datatype read_pc = AtTrack | AtSadd | AtScard | AtGet | AtFetch | AtSetex User

datatype read_result = Waiting read_pc | Finished response

definition read_start :: "ra_state \<Rightarrow> ra_state" where
  "read_start s = s\<lparr>ra_stats := (ra_stats s)\<lparr>total_reads := total_reads (ra_stats s) + 1\<rparr>\<rparr>"

fun read_step :: "(nat \<Rightarrow> bool) \<Rightarrow> bool \<Rightarrow> int \<Rightarrow> read_pc \<Rightarrow> ra_state \<Rightarrow> read_result \<times> ra_state" where
  "read_step flt ok uid AtTrack s =
     (if ok then
        (let access_count = (case access_counts s uid of None \<Rightarrow> 0 | Some c \<Rightarrow> c) + 1;
             s1 = s\<lparr>access_counts := (access_counts s)(uid \<mapsto> access_count)\<rparr>
         in if access_count \<ge> ACCESS_THRESHOLD then (Waiting AtSadd, s1) else (Waiting AtGet, s1))
      else (Finished (Unhandled RedisError), s))"
| "read_step flt ok uid AtSadd s =
     (if ok then (Waiting AtScard, s\<lparr>hot_set := sadd uid (hot_set s)\<rparr>)
      else (Finished (Unhandled RedisError), s))"
| "read_step flt ok uid AtScard s =
     (if ok then (Waiting AtGet, s\<lparr>ra_stats := (ra_stats s)\<lparr>hot_items := scard (hot_set s)\<rparr>\<rparr>)
      else (Finished (Unhandled RedisError), s))"
| "read_step flt ok uid AtGet s =
     (if ok then
        (case redis_get (ra_cache s) uid of
           Some u \<Rightarrow>
             (Finished (Response 200 (Some u)),
              s\<lparr>ra_stats := (ra_stats s)\<lparr>cache_hits := cache_hits (ra_stats s) + 1\<rparr>\<rparr>)
         | None \<Rightarrow>
             (Waiting AtFetch,
              s\<lparr>ra_stats := (ra_stats s)\<lparr>cache_misses := cache_misses (ra_stats s) + 1\<rparr>\<rparr>))
      else (Finished (Unhandled RedisError), s))"
| "read_step flt ok uid AtFetch s =
     (case db_select flt uid (ra_db s) of
        (Inl e, d') \<Rightarrow> (Finished (Unhandled e), s\<lparr>ra_db := d'\<rparr>)
      | (Inr None, d') \<Rightarrow> (Finished (Response 404 None), s\<lparr>ra_db := d'\<rparr>)
      | (Inr (Some r), d') \<Rightarrow> (Waiting (AtSetex (user_of_row r)), s\<lparr>ra_db := d'\<rparr>))"
| "read_step flt ok uid (AtSetex u) s =
     (if ok then
        (Finished (Response 200 (Some u)),
         s\<lparr>ra_cache := redis_setex (ra_cache s) uid RA_CACHE_TTL u\<rparr>)
      else (Finished (Unhandled RedisError), s))"

text \<open>
  A read that runs alone on a working cache store: at most \<open>n\<close> steps in a row, none
  of them raising in the cache store. Six steps reach the end of every read.
\<close>

fun read_resume :: "(nat \<Rightarrow> bool) \<Rightarrow> nat \<Rightarrow> int \<Rightarrow> read_pc \<Rightarrow> ra_state \<Rightarrow> read_result \<times> ra_state" where
  "read_resume flt 0 uid pc s = (Waiting pc, s)"
| "read_resume flt (Suc n) uid pc s =
     (case read_step flt True uid pc s of
        (Waiting pc', s') \<Rightarrow> read_resume flt n uid pc' s'
      | (Finished r, s') \<Rightarrow> (Finished r, s'))"

text \<open>
  The service with its reads in flight: the shared state, the reads that wait (the
  identity read and the call waited for, in order of arrival) and the answers given so
  far. An event starts a read, resumes the waiting read at a position (with the outcome
  of its cache call), or runs one of the other handlers or the refresh tick, taken as a
  whole.
\<close>

record ra_system =
  store :: ra_state
  in_flight :: "(int \<times> read_pc) list"
  answered :: "(int \<times> response) list"

datatype event = StartRead int | Resume nat bool | Handle ra_request

fun sys_step :: "(nat \<Rightarrow> bool) \<Rightarrow> event \<Rightarrow> ra_system \<Rightarrow> ra_system" where
  "sys_step flt (StartRead uid) y =
     y\<lparr>store := read_start (store y), in_flight := in_flight y @ [(uid, AtTrack)]\<rparr>"
| "sys_step flt (Resume i ok) y =
     (if i < length (in_flight y) then
        (case in_flight y ! i of
           (uid, pc) \<Rightarrow>
             (case read_step flt ok uid pc (store y) of
                (Waiting pc', s') \<Rightarrow> y\<lparr>store := s', in_flight := (in_flight y)[i := (uid, pc')]\<rparr>
              | (Finished r, s') \<Rightarrow>
                  y\<lparr>store := s',
                    in_flight := take i (in_flight y) @ drop (Suc i) (in_flight y),
                    answered := answered y @ [(uid, r)]\<rparr>))
      else y)"
| "sys_step flt (Handle req) y = y\<lparr>store := ra_handle flt req (store y)\<rparr>"

fun sys_run :: "(nat \<Rightarrow> bool) \<Rightarrow> event list \<Rightarrow> ra_system \<Rightarrow> ra_system" where
  "sys_run flt [] y = y"
| "sys_run flt (e # es) y = sys_run flt es (sys_step flt e y)"

definition sys_init :: "database \<Rightarrow> ra_system" where
  "sys_init d = \<lparr>store = ra_init d, in_flight = [], answered = []\<rparr>"

text \<open>Whether the cache call of an event succeeds (only a resumed read makes one).\<close>

fun cache_ok :: "event \<Rightarrow> bool" where
  "cache_ok (Resume i ok) = ok"
| "cache_ok (StartRead uid) = True"
| "cache_ok (Handle req) = True"

text \<open>
  The reads in flight that \<^verbatim>\<open>total_reads\<close> has counted and neither \<^verbatim>\<open>cache_hits\<close> nor
  \<^verbatim>\<open>cache_misses\<close> has yet: those that wait for a call up to and including \<^verbatim>\<open>GET\<close>.
\<close>

fun uncounted :: "read_pc \<Rightarrow> bool" where
  "uncounted AtTrack = True"
| "uncounted AtSadd = True"
| "uncounted AtScard = True"
| "uncounted AtGet = True"
| "uncounted AtFetch = False"
| "uncounted (AtSetex u) = False"

definition pending_reads :: "ra_system \<Rightarrow> nat" where
  "pending_reads y = length (filter (\<lambda>t. uncounted (snd t)) (in_flight y))"

section \<open>Concrete inputs\<close>

text \<open>Fault schedules: no statement raises; only the first one does; every one does.\<close>

definition no_faults :: "nat \<Rightarrow> bool" where
  "no_faults n = False"

definition first_fails :: "nat \<Rightarrow> bool" where
  "first_fails n = (n = 0)"

definition all_fail :: "nat \<Rightarrow> bool" where
  "all_fail n = True"

definition alice :: User where
  "alice = \<lparr>user_id = Some 7, name = ''Alice'', email = ''alice@example.com'', age = 29\<rparr>"

definition alice_row :: row where
  "alice_row = \<lparr>row_id = 7, row_name = ''Alice'', row_email = ''alice@example.com'', row_age = 29\<rparr>"

definition alice_db :: database where
  "alice_db = \<lparr>rows = [alice_row], next_id = 8, calls = 0\<rparr>"

definition empty_db :: database where
  "empty_db = \<lparr>rows = [], next_id = 1, calls = 0\<rparr>"

text \<open>A write-behind service with the given durable store and pending writes, nothing cached.\<close>

definition wb_with :: "database \<Rightarrow> queued_write list \<Rightarrow> wb_state" where
  "wb_with d q =
     \<lparr>wb_cache = Map.empty, write_queue = q, user_id_counter = 7, wb_db = d,
      wb_stats = \<lparr>cached_writes = length q, db_flushes = 0, pending_writes = length q,
                  last_flush = None\<rparr>,
      flush_errors = []\<rparr>"

definition update_age :: "int \<Rightarrow> queued_write" where
  "update_age a = \<lparr>operation = Update, user = Dump (alice\<lparr>age := a\<rparr>), timestamp = ''t''\<rparr>"

definition create_alice :: queued_write where
  "create_alice = \<lparr>operation = Create, user = Dump alice, timestamp = ''t''\<rparr>"

definition delete_of :: "int \<Rightarrow> queued_write" where
  "delete_of i = \<lparr>operation = Delete, user = IdOnly i, timestamp = ''t''\<rparr>"

definition eleven_deletes :: "queued_write list" where
  "eleven_deletes = map delete_of [1, 2, 3, 4, 5, 6, 7, 8, 9, 10, 11]"

text \<open>A write-through service that holds Alice in both stores.\<close>

definition wt_alice :: wt_state where
  "wt_alice = \<lparr>wt_cache = [7 \<mapsto> (alice, 100)], wt_db = alice_db\<rparr>"

text \<open>
  A refresh-ahead service in which Alice's key is hot and cached with the given
  remaining lifetime, over the given durable store.
\<close>

definition ra_hot_alice :: "int \<Rightarrow> database \<Rightarrow> ra_state" where
  "ra_hot_alice t d =
     \<lparr>ra_cache = [7 \<mapsto> (alice, t)], access_counts = [7 \<mapsto> 3], hot_set = [7], ra_db = d,
      ra_stats = \<lparr>total_reads = 3, cache_hits = 2, cache_misses = 1,
                  proactive_refreshes = 0, hot_items = 1\<rparr>,
      refresh_errors = []\<rparr>"

text \<open>
  Schedules of the refresh-ahead service: a read of identity 9 that runs alone; a read
  of 7 that has started and waits while a read of 9 starts and runs to its end; a read
  of 7 whose first cache call raises.
\<close>

definition lone_read :: "event list" where
  "lone_read = [StartRead 9, Resume 0 True, Resume 0 True, Resume 0 True]"

definition overtaking_reads :: "event list" where
  "overtaking_reads = [StartRead 7, StartRead 9, Resume 1 True, Resume 1 True, Resume 1 True]"

definition failing_read :: "event list" where
  "failing_read = [StartRead 7, Resume 0 False]"

section \<open>Verified properties\<close>

subsection \<open>The flush loop\<close>

lemma pop_batch_take_drop: "pop_batch n q = (take n q, drop n q)"
  by (induction n q rule: pop_batch.induct) auto

lemma flush_one_cases:
  "(flush_errors (flush_one flt w s) = flush_errors s \<and>
    write_queue (flush_one flt w s) = write_queue s \<and>
    db_flushes (wb_stats (flush_one flt w s)) = db_flushes (wb_stats s) + 1) \<or>
   (\<exists>e. flush_errors (flush_one flt w s) = flush_errors s @ [(w, e)] \<and>
    write_queue (flush_one flt w s) = write_queue s @ [w] \<and>
    db_flushes (wb_stats (flush_one flt w s)) = db_flushes (wb_stats s))"
  by (auto simp: flush_one_def split: prod.splits sum.splits)

lemma flush_writes_log:
  "\<exists>new. flush_errors (flush_writes flt ws s) = flush_errors s @ new \<and>
         write_queue (flush_writes flt ws s) = write_queue s @ map fst new \<and>
         subseq (map fst new) ws \<and>
         db_flushes (wb_stats (flush_writes flt ws s)) + length new
           = db_flushes (wb_stats s) + length ws"
proof (induction ws arbitrary: s)
  case Nil
  then show ?case by simp
next
  case (Cons w ws)
  obtain new where n:
    "flush_errors (flush_writes flt ws (flush_one flt w s)) = flush_errors (flush_one flt w s) @ new"
    "write_queue (flush_writes flt ws (flush_one flt w s)) = write_queue (flush_one flt w s) @ map fst new"
    "subseq (map fst new) ws"
    "db_flushes (wb_stats (flush_writes flt ws (flush_one flt w s))) + length new
       = db_flushes (wb_stats (flush_one flt w s)) + length ws"
    using Cons.IH[of "flush_one flt w s"] by blast
  from flush_one_cases[of flt w s] show ?case
  proof (elim disjE exE conjE)
    assume "flush_errors (flush_one flt w s) = flush_errors s"
      "write_queue (flush_one flt w s) = write_queue s"
      "db_flushes (wb_stats (flush_one flt w s)) = db_flushes (wb_stats s) + 1"
    with n show ?thesis
      by (intro exI[of _ new]) (simp add: list_emb_Cons)
  next
    fix e assume "flush_errors (flush_one flt w s) = flush_errors s @ [(w, e)]"
      "write_queue (flush_one flt w s) = write_queue s @ [w]"
      "db_flushes (wb_stats (flush_one flt w s)) = db_flushes (wb_stats s)"
    with n show ?thesis
      by (intro exI[of _ "(w, e) # new"]) simp
  qed
qed

lemma flush_to_database_log:
  "\<exists>new. flush_errors (flush_to_database flt now s) = flush_errors s @ new \<and>
         write_queue (flush_to_database flt now s) = drop BATCH_SIZE (write_queue s) @ map fst new \<and>
         subseq (map fst new) (take BATCH_SIZE (write_queue s)) \<and>
         db_flushes (wb_stats (flush_to_database flt now s)) + length new
           = db_flushes (wb_stats s) + min BATCH_SIZE (length (write_queue s))"
proof (cases "take BATCH_SIZE (write_queue s) = []")
  case True
  then show ?thesis
    by (intro exI[of _ "[]"]) (auto simp: flush_to_database_def pop_batch_take_drop)
next
  case False
  let ?s0 = "s\<lparr>write_queue := drop BATCH_SIZE (write_queue s)\<rparr>"
  let ?s1 = "flush_writes flt (take BATCH_SIZE (write_queue s)) ?s0"
  obtain new where n: "flush_errors ?s1 = flush_errors ?s0 @ new"
     "write_queue ?s1 = write_queue ?s0 @ map fst new"
     "subseq (map fst new) (take BATCH_SIZE (write_queue s))"
     "db_flushes (wb_stats ?s1) + length new
        = db_flushes (wb_stats ?s0) + length (take BATCH_SIZE (write_queue s))"
    using flush_writes_log[of flt "take BATCH_SIZE (write_queue s)" ?s0] by blast
  have "flush_to_database flt now s =
      ?s1\<lparr>wb_stats := (wb_stats ?s1)\<lparr>last_flush := Some now, pending_writes := length (write_queue ?s1)\<rparr>\<rparr>"
    using False by (simp add: flush_to_database_def pop_batch_take_drop Let_def)
  with n show ?thesis
    by (intro exI[of _ new]) (simp add: min.commute)
qed



lemmas wb_eval =
  flush_to_database_def BATCH_SIZE_def flush_one_def apply_write_def db_update_def db_delete_def
  db_upsert_def db_select_def sent_def lookup_row_def email_taken_def email_taken_by_other_def
  set_row_def set_by_email_def wb_with_def update_age_def create_alice_def delete_of_def
  eleven_deletes_def alice_def alice_row_def alice_db_def empty_db_def no_faults_def
  first_fails_def all_fail_def eval_nat_numeral

lemma apply_write_failure_rows:
  "fst (apply_write flt w d) = Inl e \<Longrightarrow> rows (snd (apply_write flt w d)) = rows d"
  by (auto simp: apply_write_def db_upsert_def db_update_def db_delete_def sent_def
      split: operation.splits sum.splits prod.splits if_splits option.splits)

lemma flush_one_outcome:
  "(case fst (apply_write flt w (wb_db s)) of
      Inl e \<Rightarrow> write_queue (flush_one flt w s) = write_queue s @ [w]
               \<and> rows (wb_db (flush_one flt w s)) = rows (wb_db s)
    | Inr u \<Rightarrow> write_queue (flush_one flt w s) = write_queue s
               \<and> wb_db (flush_one flt w s) = snd (apply_write flt w (wb_db s)))"
proof (cases "apply_write flt w (wb_db s)")
  case (Pair r d')
  show ?thesis
  proof (cases r)
    case (Inl e)
    with Pair apply_write_failure_rows[of flt w "wb_db s" e] show ?thesis
      by (simp add: flush_one_def)
  next
    case (Inr u)
    with Pair show ?thesis by (simp add: flush_one_def)
  qed
qed

lemma flush_one_db: "wb_db (flush_one flt w s) = snd (apply_write flt w (wb_db s))"
  by (auto simp: flush_one_def split: prod.splits sum.splits)

lemma flush_writes_spec:
  "wb_db (flush_writes flt ws s) = fst (spec_apply_batch flt ws (wb_db s))
   \<and> write_queue (flush_writes flt ws s) = write_queue s @ snd (spec_apply_batch flt ws (wb_db s))"
proof (induction ws arbitrary: s)
  case Nil
  then show ?case by simp
next
  case (Cons w ws)
  show ?case
  proof (cases "apply_write flt w (wb_db s)")
    case (Pair r d')
    then have d: "wb_db (flush_one flt w s) = d'"
      by (simp add: flush_one_db)
    show ?thesis
    proof (cases r)
      case (Inl e)
      with Pair have "write_queue (flush_one flt w s) = write_queue s @ [w]"
        by (simp add: flush_one_def)
      with Pair Inl d Cons.IH[of "flush_one flt w s"] show ?thesis
        by (simp split: prod.splits)
    next
      case (Inr u)
      with Pair have "write_queue (flush_one flt w s) = write_queue s"
        by (simp add: flush_one_def)
      with Pair Inr d Cons.IH[of "flush_one flt w s"] show ?thesis
        by simp
    qed
  qed
qed

lemma flush_to_database_spec:
  "wb_db (flush_to_database flt now s)
     = fst (spec_apply_batch flt (take BATCH_SIZE (write_queue s)) (wb_db s))
   \<and> write_queue (flush_to_database flt now s)
     = drop BATCH_SIZE (write_queue s)
       @ snd (spec_apply_batch flt (take BATCH_SIZE (write_queue s)) (wb_db s))"
proof (cases "take BATCH_SIZE (write_queue s) = []")
  case True
  have "flush_to_database flt now s = s\<lparr>write_queue := drop BATCH_SIZE (write_queue s)\<rparr>"
    using True by (simp add: flush_to_database_def pop_batch_take_drop)
  then show ?thesis
    unfolding True by simp
next
  case False
  then show ?thesis
    using flush_writes_spec[of flt "take BATCH_SIZE (write_queue s)"
        "s\<lparr>write_queue := drop BATCH_SIZE (write_queue s)\<rparr>"]
    by (simp add: flush_to_database_def pop_batch_take_drop Let_def)
qed

text \<open>What a successful application leaves in the store, by kind of write.\<close>

lemma lookup_row_filter_out: "lookup_row i (filter (\<lambda>r. row_id r \<noteq> i) rs) = None"
  by (induction rs) (auto simp: lookup_row_def)

lemma lookup_row_set_row:
  "lookup_row i rs = Some r \<Longrightarrow>
   lookup_row i (set_row i n e a rs) = Some (r\<lparr>row_name := n, row_email := e, row_age := a\<rparr>)"
  by (induction rs) (auto simp: lookup_row_def set_row_def split: if_splits)

lemma lookup_row_id: "lookup_row i rs = Some r \<Longrightarrow> row_id r = i"
  by (induction rs) (auto simp: lookup_row_def split: if_splits)

lemma find_email_set_by_email:
  "find (\<lambda>r. row_email r = e) (set_by_email e n a rs)
     = map_option (\<lambda>r. r\<lparr>row_name := n, row_age := a\<rparr>) (find (\<lambda>r. row_email r = e) rs)"
  by (induction rs) (auto simp: set_by_email_def)

lemma find_email_append_new:
  "find (\<lambda>r. row_email r = e) rs = None \<Longrightarrow> row_email r = e \<Longrightarrow>
   find (\<lambda>r. row_email r = e) (rs @ [r]) = Some r"
  by (induction rs) (auto split: if_splits)

lemma applied_delete:
  assumes "fst (apply_write flt w d) = Inr ()" and "operation w = Delete" and "user w = IdOnly i"
  shows "lookup_row i (rows (snd (apply_write flt w d))) = None"
  using assms
  by (auto simp: apply_write_def db_delete_def sent_def lookup_row_filter_out split: if_splits)

lemma applied_update:
  assumes "fst (apply_write flt w d) = Inr ()" and "operation w = Update" and "user w = Dump u"
    and "user_id u = Some i" and "lookup_row i (rows d) \<noteq> None"
  shows "map_option user_of_row (lookup_row i (rows (snd (apply_write flt w d)))) = Some u"
proof -
  obtain r where r: "lookup_row i (rows d) = Some r" using assms(5) by auto
  have "rows (snd (apply_write flt w d)) = set_row i (name u) (email u) (age u) (rows d)"
    using assms(1-4) r
    by (auto simp: apply_write_def db_update_def sent_def split: if_splits prod.splits sum.splits)
  then show ?thesis
    using lookup_row_set_row[OF r] lookup_row_id[OF r] assms(4)
    by (simp add: user_of_row_def)
qed

lemma applied_create:
  assumes "fst (apply_write flt w d) = Inr ()" and "operation w = Create" and "user w = Dump u"
  shows "map_option (\<lambda>r. (row_name r, row_age r))
           (find (\<lambda>r. row_email r = email u) (rows (snd (apply_write flt w d))))
         = Some (name u, age u)"
proof (cases "email_taken (email u) (rows d)")
  case True
  then obtain r where "find (\<lambda>r. row_email r = email u) (rows d) = Some r"
    by (auto simp: email_taken_def)
  with True assms show ?thesis
    by (auto simp: apply_write_def db_upsert_def sent_def find_email_set_by_email split: if_splits)
next
  case False
  then have "find (\<lambda>r. row_email r = email u) (rows d) = None"
    by (simp add: email_taken_def)
  with False assms show ?thesis
    by (auto simp: apply_write_def db_upsert_def sent_def find_email_append_new split: if_splits)
qed


text \<open>
  C5. When the durable application of a popped write raises, the flush appends that same
  write to the tail of the queue and leaves the rows of the store as they were; otherwise
  the queue is left alone and the store is what the application made of it. Over a whole
  tick the store and the queue are those of the spec's batch: every popped write is
  applied in order, and the queue is the unpopped remainder followed by the failed writes
  in batch order. A successful delete leaves no row with the identity, a successful
  update of a stored identity leaves the written entity, a successful create leaves a row
  with the written email, name and age. The failed writes are the ones the flush logged,
  and every popped write was either counted in \<open>db_flushes\<close> or requeued. In the
  scenario, with Alice's row (id 7) in the store and the updates to age 30 and age 31
  queued, the first store call fails: the first tick applies age 31 and requeues age 30,
  the second tick applies age 30 last.
\<close>

theorem requeue_at_tail:
  "(case fst (apply_write flt w (wb_db s)) of
      Inl e \<Rightarrow> write_queue (flush_one flt w s) = write_queue s @ [w]
               \<and> rows (wb_db (flush_one flt w s)) = rows (wb_db s)
    | Inr v \<Rightarrow> write_queue (flush_one flt w s) = write_queue s
               \<and> wb_db (flush_one flt w s) = snd (apply_write flt w (wb_db s)))
   \<and> wb_db (flush_to_database flt now s)
       = fst (spec_apply_batch flt (take BATCH_SIZE (write_queue s)) (wb_db s))
   \<and> write_queue (flush_to_database flt now s)
       = drop BATCH_SIZE (write_queue s)
         @ snd (spec_apply_batch flt (take BATCH_SIZE (write_queue s)) (wb_db s))
   \<and> (fst (apply_write flt wd d) = Inr () \<and> operation wd = Delete \<and> user wd = IdOnly i \<longrightarrow>
        lookup_row i (rows (snd (apply_write flt wd d))) = None)
   \<and> (fst (apply_write flt wu d) = Inr () \<and> operation wu = Update \<and> user wu = Dump u
        \<and> user_id u = Some j \<and> lookup_row j (rows d) \<noteq> None \<longrightarrow>
        map_option user_of_row (lookup_row j (rows (snd (apply_write flt wu d)))) = Some u)
   \<and> (fst (apply_write flt wc d) = Inr () \<and> operation wc = Create \<and> user wc = Dump c \<longrightarrow>
        map_option (\<lambda>r. (row_name r, row_age r))
          (find (\<lambda>r. row_email r = email c) (rows (snd (apply_write flt wc d))))
        = Some (name c, age c))
   \<and> write_queue (flush_to_database flt now s)
     = drop BATCH_SIZE (write_queue s)
       @ map fst (drop (length (flush_errors s)) (flush_errors (flush_to_database flt now s)))
   \<and> subseq (map fst (drop (length (flush_errors s)) (flush_errors (flush_to_database flt now s))))
        (take BATCH_SIZE (write_queue s))
   \<and> db_flushes (wb_stats (flush_to_database flt now s))
       + length (drop (length (flush_errors s)) (flush_errors (flush_to_database flt now s)))
     = db_flushes (wb_stats s) + min BATCH_SIZE (length (write_queue s))
   \<and> write_queue (flush_to_database first_fails ''t1'' (wb_with alice_db [update_age 30, update_age 31]))
     = [update_age 30]
   \<and> map row_age (rows (wb_db (flush_to_database first_fails ''t1''
        (wb_with alice_db [update_age 30, update_age 31])))) = [31]
   \<and> write_queue (flush_to_database first_fails ''t2'' (flush_to_database first_fails ''t1''
        (wb_with alice_db [update_age 30, update_age 31]))) = []
   \<and> map row_age (rows (wb_db (flush_to_database first_fails ''t2'' (flush_to_database first_fails ''t1''
        (wb_with alice_db [update_age 30, update_age 31]))))) = [30]"
proof -
  obtain new where n: "flush_errors (flush_to_database flt now s) = flush_errors s @ new"
    "write_queue (flush_to_database flt now s) = drop BATCH_SIZE (write_queue s) @ map fst new"
    "subseq (map fst new) (take BATCH_SIZE (write_queue s))"
    "db_flushes (wb_stats (flush_to_database flt now s)) + length new
       = db_flushes (wb_stats s) + min BATCH_SIZE (length (write_queue s))"
    using flush_to_database_log[of flt now s] by blast
  have d: "drop (length (flush_errors s)) (flush_errors (flush_to_database flt now s)) = new"
    using n(1) by simp
  have a: "write_queue (flush_to_database first_fails ''t1'' (wb_with alice_db [update_age 30, update_age 31]))
     = [update_age 30]"
    by (simp add: wb_eval)
  have b: "map row_age (rows (wb_db (flush_to_database first_fails ''t1''
        (wb_with alice_db [update_age 30, update_age 31])))) = [31]"
    by (simp add: wb_eval)
  have c: "write_queue (flush_to_database first_fails ''t2'' (flush_to_database first_fails ''t1''
        (wb_with alice_db [update_age 30, update_age 31]))) = []"
    by (simp add: wb_eval)
  have e: "map row_age (rows (wb_db (flush_to_database first_fails ''t2'' (flush_to_database first_fails ''t1''
        (wb_with alice_db [update_age 30, update_age 31]))))) = [30]"
    by (simp add: wb_eval)
  note step = flush_one_outcome[of flt w s]
  note tick = flush_to_database_spec[of flt now s]
  note kinds = applied_delete[of flt wd d i] applied_update[of flt wu d u j] applied_create[of flt wc d c]
  from n(2,3,4) a b c e step tick kinds show ?thesis
    unfolding d by (intro conjI impI; (elim conjE)?; assumption?; blast?)
qed

theorem requeue_at_tail_witness:
  "fst (apply_write no_faults (delete_of 7) alice_db) = Inr ()
   \<and> lookup_row 7 (rows (snd (apply_write no_faults (delete_of 7) alice_db))) = None
   \<and> fst (apply_write no_faults (update_age 31) alice_db) = Inr ()
   \<and> lookup_row 7 (rows alice_db) = Some alice_row
   \<and> map_option user_of_row (lookup_row 7 (rows (snd (apply_write no_faults (update_age 31) alice_db))))
       = Some (alice\<lparr>age := 31\<rparr>)
   \<and> fst (apply_write no_faults create_alice alice_db) = Inr ()
   \<and> map_option (\<lambda>r. (row_name r, row_age r))
        (find (\<lambda>r. row_email r = email alice) (rows (snd (apply_write no_faults create_alice alice_db))))
       = Some (name alice, age alice)
   \<and> fst (apply_write first_fails (update_age 30) alice_db) = Inl ConnectionError
   \<and> write_queue (flush_one first_fails (update_age 30) (wb_with alice_db [])) = [update_age 30]"
proof -
  have hd: "fst (apply_write no_faults (delete_of 7) alice_db) = Inr ()"
    "operation (delete_of 7) = Delete" "user (delete_of 7) = IdOnly 7"
    by (simp_all add: wb_eval)
  have hu: "fst (apply_write no_faults (update_age 31) alice_db) = Inr ()"
    "operation (update_age 31) = Update" "user (update_age 31) = Dump (alice\<lparr>age := 31\<rparr>)"
    "user_id (alice\<lparr>age := 31\<rparr>) = Some 7" "lookup_row 7 (rows alice_db) = Some alice_row"
    by (simp_all add: wb_eval)
  have hc: "fst (apply_write no_faults create_alice alice_db) = Inr ()"
    "operation create_alice = Create" "user create_alice = Dump alice"
    by (simp_all add: wb_eval)
  have hf: "fst (apply_write first_fails (update_age 30) (wb_db (wb_with alice_db []))) = Inl ConnectionError"
    "wb_db (wb_with alice_db []) = alice_db" "write_queue (wb_with alice_db []) = []"
    by (simp_all add: wb_eval)
  note t = requeue_at_tail[where flt = no_faults and d = alice_db and wd = "delete_of 7" and i = 7
      and wu = "update_age 31" and u = "alice\<lparr>age := 31\<rparr>" and j = 7
      and wc = create_alice and c = alice]
  note f = requeue_at_tail[where flt = first_fails and w = "update_age 30" and s = "wb_with alice_db []"]
  have q: "write_queue (flush_one first_fails (update_age 30) (wb_with alice_db [])) = [update_age 30]"
    using f hf by simp
  from t hd hu hc have
    "lookup_row 7 (rows (snd (apply_write no_faults (delete_of 7) alice_db))) = None"
    "map_option user_of_row (lookup_row 7 (rows (snd (apply_write no_faults (update_age 31) alice_db))))
       = Some (alice\<lparr>age := 31\<rparr>)"
    "map_option (\<lambda>r. (row_name r, row_age r))
        (find (\<lambda>r. row_email r = email alice) (rows (snd (apply_write no_faults create_alice alice_db))))
       = Some (name alice, age alice)"
    by simp_all
  with hd(1) hu(1,5) hc(1) hf(1,2) q show ?thesis by simp
qed



text \<open>
  C2. The forced flush is one call of the flush, which pops one batch: with eleven writes
  pending and no failure, one write is still pending when it has completed.
\<close>

theorem force_flush_leaves_backlog:
  "length (write_queue (snd (force_flush no_faults ''t'' (wb_with empty_db eleven_deletes)))) = 1
   \<and> flush_errors (snd (force_flush no_faults ''t'' (wb_with empty_db eleven_deletes))) = []
   \<and> pending_writes (wb_stats (snd (force_flush no_faults ''t'' (wb_with empty_db eleven_deletes)))) = 1"
  by (simp add: force_flush_def wb_eval)

subsection \<open>Upsert on the durable store\<close>

lemma lookup_row_None_filter:
  "lookup_row i rs = None \<Longrightarrow> filter (\<lambda>r. row_id r \<noteq> i) rs = rs"
  by (induction rs) (auto simp: lookup_row_def split: if_splits)

lemma email_taken_iff: "email_taken e rs \<longleftrightarrow> e \<in> set (map row_email rs)"
  by (induction rs) (auto simp: email_taken_def)

lemma set_by_email_emails: "map row_email (set_by_email e n a rs) = map row_email rs"
  by (induction rs) (auto simp: set_by_email_def)

lemma set_by_email_email_set: "row_email ` set (set_by_email e n a rs) = row_email ` set rs"
  using set_by_email_emails[of e n a rs] by (metis set_map)

lemma filter_email_none:
  "e \<notin> set (map row_email rs) \<Longrightarrow> filter (\<lambda>r. row_email r = e) rs = []"
  by (induction rs) auto

lemma count_email_distinct:
  "distinct (map row_email rs) \<Longrightarrow> e \<in> set (map row_email rs) \<Longrightarrow>
   length (filter (\<lambda>r. row_email r = e) rs) = 1"
proof (induction rs)
  case Nil
  then show ?case by simp
next
  case (Cons r rs)
  show ?case
  proof (cases "row_email r = e")
    case True
    with Cons.prems(1) have "e \<notin> set (map row_email rs)" by simp
    then have "filter (\<lambda>r. row_email r = e) rs = []" by (rule filter_email_none)
    with True show ?thesis by simp
  next
    case False
    with Cons show ?thesis by auto
  qed
qed

lemma filter_email_map:
  "filter (\<lambda>r. row_email r = e) (set_by_email e n a rs)
     = map (\<lambda>r. r\<lparr>row_name := n, row_age := a\<rparr>) (filter (\<lambda>r. row_email r = e) rs)"
  by (induction rs) (auto simp: set_by_email_def)

lemma set_by_email_fixed:
  "list_all (\<lambda>r. row_name r = n \<and> row_age r = a) (filter (\<lambda>r. row_email r = e) rs) \<Longrightarrow>
   set_by_email e n a rs = rs"
  by (induction rs) (auto simp: set_by_email_def)

text \<open>What one successful upsert leaves, and that a second one changes no row.\<close>

lemma upsert_once:
  assumes "distinct (map row_email (rows d))" and "\<not> flt (calls d)"
  shows "fst (db_upsert flt n e a d) = Inr ()"
    and "distinct (map row_email (rows (snd (db_upsert flt n e a d))))"
    and "e \<in> set (map row_email (rows (snd (db_upsert flt n e a d))))"
    and "calls (snd (db_upsert flt n e a d)) = Suc (calls d)"
    and "list_all (\<lambda>r. row_name r = n \<and> row_age r = a)
           (filter (\<lambda>r. row_email r = e) (rows (snd (db_upsert flt n e a d))))"
proof -
  show "fst (db_upsert flt n e a d) = Inr ()"
    using assms(2) by (simp add: db_upsert_def)
  show "calls (snd (db_upsert flt n e a d)) = Suc (calls d)"
    using assms(2) by (simp add: db_upsert_def sent_def)
  show "distinct (map row_email (rows (snd (db_upsert flt n e a d))))"
    using assms by (simp add: db_upsert_def sent_def email_taken_iff set_by_email_emails)
  show "e \<in> set (map row_email (rows (snd (db_upsert flt n e a d))))"
    using assms(2) by (simp add: db_upsert_def sent_def email_taken_iff set_by_email_email_set)
  show "list_all (\<lambda>r. row_name r = n \<and> row_age r = a)
           (filter (\<lambda>r. row_email r = e) (rows (snd (db_upsert flt n e a d))))"
  proof (cases "e \<in> set (map row_email (rows d))")
    case True
    then show ?thesis
      using assms(2)
      by (simp add: db_upsert_def sent_def email_taken_iff filter_email_map list_all_iff)
  next
    case False
    then show ?thesis
      using assms(2) filter_email_none[OF False]
      by (simp add: db_upsert_def sent_def email_taken_iff)
  qed
qed

lemma upsert_again:
  assumes "\<not> flt (calls d)"
    and "e \<in> set (map row_email (rows d))"
    and "list_all (\<lambda>r. row_name r = n \<and> row_age r = a) (filter (\<lambda>r. row_email r = e) (rows d))"
  shows "rows (snd (db_upsert flt n e a d)) = rows d" and "fst (db_upsert flt n e a d) = Inr ()"
  using assms set_by_email_fixed[OF assms(3)]
  by (simp_all add: db_upsert_def sent_def email_taken_iff)


subsection \<open>Write-behind requests\<close>

lemma flush_one_ok:
  "fst (apply_write flt w (wb_db s)) = Inr () \<Longrightarrow>
   wb_db (flush_one flt w s) = snd (apply_write flt w (wb_db s)) \<and>
   write_queue (flush_one flt w s) = write_queue s"
  by (auto simp: flush_one_def split: prod.splits sum.splits)

text \<open>
  C7. A create write that is delivered twice in one flush, both applications succeeding on
  a table whose emails are unique, leaves exactly one row with the write's email; the
  second application leaves the rows as the first one made them, and the row carries the
  name and age of the write. Nothing is requeued.
\<close>

theorem duplicate_create_collapses:
  assumes "distinct (map row_email (rows (wb_db s)))"
    and "write_queue s = [w, w]"
    and "operation w = Create"
    and "user w = Dump u"
    and "\<not> flt (calls (wb_db s))"
    and "\<not> flt (Suc (calls (wb_db s)))"
  shows "length (filter (\<lambda>r. row_email r = email u) (rows (wb_db (flush_to_database flt now s)))) = 1
    \<and> rows (wb_db (flush_to_database flt now s)) = rows (snd (apply_write flt w (wb_db s)))
    \<and> list_all (\<lambda>r. row_name r = name u \<and> row_age r = age u)
         (filter (\<lambda>r. row_email r = email u) (rows (wb_db (flush_to_database flt now s))))
    \<and> write_queue (flush_to_database flt now s) = []"
proof -
  let ?up = "db_upsert flt (name u) (email u) (age u)"
  let ?d1 = "snd (?up (wb_db s))"
  let ?s0 = "s\<lparr>write_queue := []\<rparr>"
  let ?s1 = "flush_one flt w ?s0"
  let ?s2 = "flush_one flt w ?s1"
  have aw: "apply_write flt w d = ?up d" for d
    using assms(3,4) by (simp add: apply_write_def)
  note once = upsert_once[where d = "wb_db s" and flt = flt and n = "name u" and e = "email u"
      and a = "age u", OF assms(1) assms(5)]
  have s1: "wb_db ?s1 = ?d1" "write_queue ?s1 = []"
    using flush_one_ok[of flt w ?s0] once(1) by (simp_all add: aw)
  have f2: "\<not> flt (calls ?d1)"
    using assms(6) once(4) by simp
  note again = upsert_again[where d = ?d1 and flt = flt and n = "name u" and e = "email u"
      and a = "age u", OF f2 once(3) once(5)]
  have s2: "wb_db ?s2 = snd (?up ?d1)" "write_queue ?s2 = []"
    using flush_one_ok[of flt w ?s1] again(2) s1 by (simp_all add: aw)
  have fl: "wb_db (flush_to_database flt now s) = wb_db ?s2"
    "write_queue (flush_to_database flt now s) = write_queue ?s2"
    using assms(2) by (simp_all add: flush_to_database_def BATCH_SIZE_def eval_nat_numeral Let_def)
  have r: "rows (wb_db (flush_to_database flt now s)) = rows ?d1"
    using fl(1) s2(1) again(1) by simp
  have c: "length (filter (\<lambda>r. row_email r = email u) (rows ?d1)) = 1"
    using count_email_distinct[OF once(2) once(3)] .
  show ?thesis
    using r c once(5) fl(2) s2(2) by (simp add: aw)
qed

theorem duplicate_create_collapses_witness:
  "distinct (map row_email (rows (wb_db (wb_with empty_db [create_alice, create_alice]))))
   \<and> length (filter (\<lambda>r. row_email r = email alice)
        (rows (wb_db (flush_to_database no_faults ''t'' (wb_with empty_db [create_alice, create_alice]))))) = 1
   \<and> rows (wb_db (flush_to_database no_faults ''t'' (wb_with empty_db [create_alice, create_alice])))
       = [\<lparr>row_id = 1, row_name = ''Alice'', row_email = ''alice@example.com'', row_age = 29\<rparr>]"
proof -
  have h1: "distinct (map row_email (rows (wb_db (wb_with empty_db [create_alice, create_alice]))))"
    by (simp add: wb_with_def empty_db_def)
  have h2: "write_queue (wb_with empty_db [create_alice, create_alice]) = [create_alice, create_alice]"
    by (simp add: wb_with_def)
  have h3: "operation create_alice = Create" and h4: "user create_alice = Dump alice"
    by (simp_all add: create_alice_def)
  have h5: "\<not> no_faults (calls (wb_db (wb_with empty_db [create_alice, create_alice])))"
    and h6: "\<not> no_faults (Suc (calls (wb_db (wb_with empty_db [create_alice, create_alice]))))"
    by (simp_all add: no_faults_def)
  have a: "rows (snd (apply_write no_faults create_alice (wb_db (wb_with empty_db [create_alice, create_alice]))))
      = [\<lparr>row_id = 1, row_name = ''Alice'', row_email = ''alice@example.com'', row_age = 29\<rparr>]"
    by (simp add: wb_eval)
  note t = duplicate_create_collapses[OF h1 h2 h3 h4 h5 h6, of "''t''"]
  from t have c1: "length (filter (\<lambda>r. row_email r = email alice)
        (rows (wb_db (flush_to_database no_faults ''t'' (wb_with empty_db [create_alice, create_alice]))))) = 1"
    by (rule conjunct1)
  from t have c2: "rows (wb_db (flush_to_database no_faults ''t'' (wb_with empty_db [create_alice, create_alice])))
      = rows (snd (apply_write no_faults create_alice (wb_db (wb_with empty_db [create_alice, create_alice]))))"
    by (rule conjunct1[OF conjunct2])
  from h1 c1 c2[unfolded a] show ?thesis by (intro conjI)
qed

text \<open>
  C10. The delete handler of the write-behind service answers 204 for every identity: it
  removes the cache key and appends a delete write to the queue, whatever the stores
  hold. Applied later to a durable store that has no row with the identity, the delete
  succeeds and leaves the rows as they are.
\<close>

theorem delete_never_not_found:
  "fst (wb_delete_user_endpoint now uid s) = Response 204 None
   \<and> wb_cache (snd (wb_delete_user_endpoint now uid s)) uid = None
   \<and> write_queue (snd (wb_delete_user_endpoint now uid s))
       = write_queue s @ [\<lparr>operation = Delete, user = IdOnly uid, timestamp = now\<rparr>]
   \<and> (lookup_row uid (rows d) = None \<and> \<not> flt (calls d) \<longrightarrow>
        fst (apply_write flt \<lparr>operation = Delete, user = IdOnly uid, timestamp = now\<rparr> d) = Inr ()
        \<and> rows (snd (apply_write flt \<lparr>operation = Delete, user = IdOnly uid, timestamp = now\<rparr> d)) = rows d)"
  by (simp add: wb_delete_user_endpoint_def wb_delete_user_def enqueue_def redis_delete_def Let_def
      apply_write_def db_delete_def sent_def lookup_row_None_filter)

theorem delete_never_not_found_witness:
  "fst (wb_delete_user_endpoint ''t'' 42 (wb_with alice_db [])) = Response 204 None
   \<and> write_queue (snd (wb_delete_user_endpoint ''t'' 42 (wb_with alice_db []))) = [delete_of 42]
   \<and> lookup_row 42 (rows alice_db) = None \<and> \<not> no_faults (calls alice_db)
   \<and> fst (apply_write no_faults (delete_of 42) alice_db) = Inr ()
   \<and> rows (snd (apply_write no_faults (delete_of 42) alice_db)) = rows alice_db"
  using delete_never_not_found[of "''t''" 42 "wb_with alice_db []" alice_db no_faults]
  by (simp add: delete_of_def wb_with_def lookup_row_def alice_db_def alice_row_def no_faults_def)




subsection \<open>Write-through update\<close>

text \<open>
  C3, as the code has it. When the durable update of a write-through update raises, the
  exception reaches the caller and the cache entry of that key is deleted; the entries of
  all other keys and the rows of the durable store are left as they were.
\<close>

theorem write_through_failure_invalidates:
  assumes "fst (db_update flt (name u) (email u) (age u) (Some uid) (wt_db s)) = Inl e"
  shows "fst (wt_update_user flt uid u s) = Inl e
    \<and> wt_cache (snd (wt_update_user flt uid u s)) uid = None
    \<and> (\<forall>k. k \<noteq> uid \<longrightarrow> wt_cache (snd (wt_update_user flt uid u s)) k = wt_cache s k)
    \<and> rows (wt_db (snd (wt_update_user flt uid u s))) = rows (wt_db s)"
proof -
  obtain d' where d: "db_update flt (name u) (email u) (age u) (Some uid) (wt_db s) = (Inl e, d')"
    using assms by (cases "db_update flt (name u) (email u) (age u) (Some uid) (wt_db s)") simp
  then have "rows d' = rows (wt_db s)"
    by (auto simp: db_update_def sent_def split: if_splits option.splits)
  with d show ?thesis
    by (simp add: wt_update_user_def redis_delete_def)
qed

theorem write_through_failure_invalidates_witness:
  "fst (db_update all_fail (name alice) (email alice) (age alice) (Some 7) (wt_db wt_alice)) = Inl ConnectionError
   \<and> fst (wt_update_user all_fail 7 alice wt_alice) = Inl ConnectionError
   \<and> wt_cache (snd (wt_update_user all_fail 7 alice wt_alice)) 7 = None
   \<and> rows (wt_db (snd (wt_update_user all_fail 7 alice wt_alice))) = rows (wt_db wt_alice)"
proof -
  have h: "fst (db_update all_fail (name alice) (email alice) (age alice) (Some 7) (wt_db wt_alice))
      = Inl ConnectionError"
    by (simp add: db_update_def all_fail_def)
  show ?thesis
    using h write_through_failure_invalidates[OF h] by simp
qed

theorem write_through_failure_counterexample:
  "fst (wt_update_user all_fail 7 alice wt_alice) = Inl ConnectionError
   \<and> wt_cache wt_alice 7 = Some (alice, 100)
   \<and> wt_cache (snd (wt_update_user all_fail 7 alice wt_alice)) 7 = None
   \<and> wt_cache (snd (wt_update_user all_fail 7 alice wt_alice)) 7 \<noteq> wt_cache wt_alice 7"
  by (simp add: wt_update_user_def db_update_def all_fail_def wt_alice_def redis_delete_def)

subsection \<open>Read counters of the refresh-ahead service\<close>

lemma track_access_keeps:
  "ra_cache (track_access uid s) = ra_cache s"
  "ra_db (track_access uid s) = ra_db s"
  "read_counters (track_access uid s) = read_counters s"
  by (simp_all add: track_access_def read_counters_def Let_def)

lemma ra_get_user_counters:
  "read_counters (snd (ra_get_user flt uid s))
     = (total_reads (ra_stats s),
        (if redis_get (ra_cache s) uid \<noteq> None then cache_hits (ra_stats s) + 1 else cache_hits (ra_stats s)),
        (if redis_get (ra_cache s) uid \<noteq> None then cache_misses (ra_stats s) else cache_misses (ra_stats s) + 1))"
  using track_access_keeps[of uid s]
  by (auto simp: ra_get_user_def read_counters_def Let_def split: option.splits prod.splits sum.splits)

lemma get_endpoint_counters:
  "read_counters (snd (ra_get_user_endpoint flt uid s))
     = (total_reads (ra_stats s) + 1,
        (if redis_get (ra_cache s) uid \<noteq> None then cache_hits (ra_stats s) + 1 else cache_hits (ra_stats s)),
        (if redis_get (ra_cache s) uid \<noteq> None then cache_misses (ra_stats s) else cache_misses (ra_stats s) + 1))"
proof -
  let ?s1 = "s\<lparr>ra_stats := (ra_stats s)\<lparr>total_reads := total_reads (ra_stats s) + 1\<rparr>\<rparr>"
  have "snd (ra_get_user_endpoint flt uid s) = snd (ra_get_user flt uid ?s1)"
    by (simp add: ra_get_user_endpoint_def Let_def split: prod.splits sum.splits option.splits)
  then show ?thesis
    using ra_get_user_counters[of flt uid ?s1] by simp
qed

lemma get_endpoint_missing:
  assumes "ra_cache s uid = None" and "lookup_row uid (rows (ra_db s)) = None"
    and "\<not> flt (calls (ra_db s))"
  shows "fst (ra_get_user_endpoint flt uid s) = Response 404 None"
  using assms track_access_keeps(1,2)[of uid "s\<lparr>ra_stats := (ra_stats s)\<lparr>total_reads := total_reads (ra_stats s) + 1\<rparr>\<rparr>"]
  by (simp add: ra_get_user_endpoint_def ra_get_user_def Let_def redis_get_def db_select_def)

lemma refresh_item_counters: "read_counters (refresh_item flt k s) = read_counters s"
  by (auto simp: refresh_item_def refresh_user_def read_counters_def Let_def
      split: prod.splits sum.splits option.splits)

lemma refresh_items_counters: "read_counters (refresh_items flt ks s) = read_counters s"
  by (induction ks arbitrary: s) (simp_all add: refresh_item_counters)

lemma refresh_hot_items_counters: "read_counters (refresh_hot_items flt s) = read_counters s"
  using refresh_items_counters[of flt "hot_set s" s]
  by (simp add: refresh_hot_items_def Let_def read_counters_def)

lemma other_requests_counters:
  assumes "\<forall>uid. req \<noteq> GetUser uid"
  shows "read_counters (ra_handle flt req s) = read_counters s"
proof (cases req)
  case (GetUser uid)
  with assms show ?thesis by simp
next
  case (CreateUser u)
  then show ?thesis
    by (auto simp: ra_create_user_endpoint_def ra_create_user_def read_counters_def
        split: prod.splits sum.splits)
next
  case (UpdateUser uid u)
  then show ?thesis
    by (auto simp: ra_update_user_endpoint_def ra_update_user_def read_counters_def
        split: prod.splits sum.splits option.splits)
next
  case (DeleteUser uid)
  then show ?thesis
    by (auto simp: ra_delete_user_endpoint_def ra_delete_user_def read_counters_def
        split: prod.splits sum.splits bool.splits if_splits)
next
  case RefreshTick
  then show ?thesis by (simp add: refresh_hot_items_counters)
qed simp_all

lemma handle_balanced: "balanced s \<Longrightarrow> balanced (ra_handle flt req s)"
proof (cases "\<exists>uid. req = GetUser uid")
  case True
  then obtain uid where "req = GetUser uid" by blast
  moreover assume "balanced s"
  ultimately show ?thesis
    using get_endpoint_counters[of flt uid s]
    by (auto simp: balanced_def read_counters_def split: if_splits)
next
  case False
  moreover assume "balanced s"
  ultimately show ?thesis
    using other_requests_counters[of req flt s] by (simp add: balanced_def read_counters_def)
qed

lemma run_balanced: "balanced s \<Longrightarrow> balanced (ra_run flt reqs s)"
  by (induction reqs arbitrary: s) (simp_all add: handle_balanced)

subsection \<open>Reads that interleave\<close>

text \<open>A read that runs alone on a working cache store is the handler taken as a whole.\<close>

lemma read_alone:
  "read_resume flt 6 uid AtTrack (read_start s)
     = (Finished (fst (ra_get_user_endpoint flt uid s)), snd (ra_get_user_endpoint flt uid s))"
  by (simp add: eval_nat_numeral read_start_def ra_get_user_endpoint_def ra_get_user_def
      track_access_def Let_def db_select_def redis_get_def
      split: option.splits prod.splits sum.splits)

lemma read_step_counters:
  "read_counters (snd (read_step flt ok uid pc s))
     = (if pc = AtGet \<and> ok
        then (total_reads (ra_stats s),
              (if redis_get (ra_cache s) uid \<noteq> None then cache_hits (ra_stats s) + 1
               else cache_hits (ra_stats s)),
              (if redis_get (ra_cache s) uid \<noteq> None then cache_misses (ra_stats s)
               else cache_misses (ra_stats s) + 1))
        else read_counters s)"
  by (cases pc)
    (auto simp: read_counters_def Let_def db_select_def split: option.splits prod.splits sum.splits)

text \<open>How a step of a read changes whether the read is still to be counted.\<close>

lemma read_step_uncounted:
  "uncounted pc \<Longrightarrow> pc \<noteq> AtGet \<Longrightarrow> ok \<Longrightarrow>
     \<exists>pc'. fst (read_step flt ok uid pc s) = Waiting pc' \<and> uncounted pc'"
  "\<not> uncounted pc \<Longrightarrow> fst (read_step flt ok uid pc s) = Waiting pc' \<Longrightarrow> \<not> uncounted pc'"
  "fst (read_step flt True uid AtGet s) = Waiting pc' \<Longrightarrow> \<not> uncounted pc'"
  "\<not> ok \<Longrightarrow> uncounted pc \<Longrightarrow> \<exists>r. fst (read_step flt ok uid pc s) = Finished r"
  by (cases pc; auto simp: Let_def db_select_def split: option.splits prod.splits sum.splits if_splits)+

lemma filter_length_update:
  "i < length xs \<Longrightarrow>
   length (filter P (xs[i := x])) + (if P (xs ! i) then 1 else 0)
     = length (filter P xs) + (if P x then 1 else 0)"
proof (induction xs arbitrary: i)
  case Nil
  then show ?case by simp
next
  case (Cons a xs)
  then show ?case by (cases i) auto
qed

lemma filter_length_remove:
  "i < length xs \<Longrightarrow>
   length (filter P (take i xs @ drop (Suc i) xs)) + (if P (xs ! i) then 1 else 0)
     = length (filter P xs)"
proof (induction xs arbitrary: i)
  case Nil
  then show ?case by simp
next
  case (Cons a xs)
  then show ?case by (cases i) auto
qed


text \<open>
  The balance of one step of a read: what hits and misses gain is what the read loses in
  being still to be counted; a cache call that raises loses the read without a gain.
\<close>

lemma read_step_balance:
  "total_reads (ra_stats (snd (read_step flt ok uid pc s))) = total_reads (ra_stats s)"
  "cache_hits (ra_stats (snd (read_step flt ok uid pc s)))
     + cache_misses (ra_stats (snd (read_step flt ok uid pc s)))
     + (case fst (read_step flt ok uid pc s) of
          Waiting pc' \<Rightarrow> if uncounted pc' then 1 else 0 | Finished r \<Rightarrow> 0)
   \<le> cache_hits (ra_stats s) + cache_misses (ra_stats s) + (if uncounted pc then 1 else 0)"
  "ok \<Longrightarrow>
   cache_hits (ra_stats (snd (read_step flt ok uid pc s)))
     + cache_misses (ra_stats (snd (read_step flt ok uid pc s)))
     + (case fst (read_step flt ok uid pc s) of
          Waiting pc' \<Rightarrow> if uncounted pc' then 1 else 0 | Finished r \<Rightarrow> 0)
   = cache_hits (ra_stats s) + cache_misses (ra_stats s) + (if uncounted pc then 1 else 0)"
  by (cases pc; simp add: Let_def db_select_def split: option.splits prod.splits sum.splits)+

lemma resume_effect:
  assumes "i < length (in_flight y)" and "in_flight y ! i = (uid, pc)"
  shows "store (sys_step flt (Resume i ok) y) = snd (read_step flt ok uid pc (store y))"
    and "pending_reads (sys_step flt (Resume i ok) y) + (if uncounted pc then 1 else 0)
         = pending_reads y
           + (case fst (read_step flt ok uid pc (store y)) of
                Waiting pc' \<Rightarrow> if uncounted pc' then 1 else 0 | Finished r \<Rightarrow> 0)"
proof -
  obtain res s' where rs: "read_step flt ok uid pc (store y) = (res, s')"
    by (cases "read_step flt ok uid pc (store y)")
  show "store (sys_step flt (Resume i ok) y) = snd (read_step flt ok uid pc (store y))"
    using assms rs by (cases res) simp_all
  show "pending_reads (sys_step flt (Resume i ok) y) + (if uncounted pc then 1 else 0)
         = pending_reads y
           + (case fst (read_step flt ok uid pc (store y)) of
                Waiting pc' \<Rightarrow> if uncounted pc' then 1 else 0 | Finished r \<Rightarrow> 0)"
  proof (cases res)
    case (Waiting pc')
    then show ?thesis
      using assms rs
        filter_length_update[OF assms(1), of "\<lambda>t. uncounted (snd t)" "(uid, pc')"]
      by (simp add: pending_reads_def)
  next
    case (Finished r)
    then show ?thesis
      using assms rs filter_length_remove[OF assms(1), of "\<lambda>t. uncounted (snd t)"]
      by (simp add: pending_reads_def)
  qed
qed

lemma sys_step_bound:
  assumes "cache_hits (ra_stats (store y)) + cache_misses (ra_stats (store y)) + pending_reads y
           \<le> total_reads (ra_stats (store y))"
  shows "cache_hits (ra_stats (store (sys_step flt e y)))
           + cache_misses (ra_stats (store (sys_step flt e y))) + pending_reads (sys_step flt e y)
         \<le> total_reads (ra_stats (store (sys_step flt e y)))"
proof (cases e)
  case (StartRead uid)
  with assms show ?thesis
    by (simp add: read_start_def pending_reads_def)
next
  case (Handle req)
  show ?thesis
  proof (cases "\<exists>u. req = GetUser u")
    case True
    then obtain u where "req = GetUser u" by blast
    with Handle assms get_endpoint_counters[of flt u "store y"] show ?thesis
      by (auto simp: read_counters_def pending_reads_def split: if_splits)
  next
    case False
    with Handle assms other_requests_counters[of req flt "store y"] show ?thesis
      by (simp add: read_counters_def pending_reads_def)
  qed
next
  case (Resume i ok)
  show ?thesis
  proof (cases "i < length (in_flight y)")
    case False
    with Resume assms show ?thesis by simp
  next
    case True
    obtain uid pc where t: "in_flight y ! i = (uid, pc)"
      by (cases "in_flight y ! i")
    note eff = resume_effect[OF True t, of flt ok]
    note bal = read_step_balance(1,2)[of flt ok uid pc "store y"]
    from assms eff(2) bal show ?thesis
      unfolding Resume eff(1) by linarith
  qed
qed

lemma sys_step_exact:
  assumes "cache_ok e"
    and "cache_hits (ra_stats (store y)) + cache_misses (ra_stats (store y)) + pending_reads y
           = total_reads (ra_stats (store y))"
  shows "cache_hits (ra_stats (store (sys_step flt e y)))
           + cache_misses (ra_stats (store (sys_step flt e y))) + pending_reads (sys_step flt e y)
         = total_reads (ra_stats (store (sys_step flt e y)))"
proof (cases e)
  case (StartRead uid)
  with assms(2) show ?thesis
    by (simp add: read_start_def pending_reads_def)
next
  case (Handle req)
  show ?thesis
  proof (cases "\<exists>u. req = GetUser u")
    case True
    then obtain u where "req = GetUser u" by blast
    with Handle assms(2) get_endpoint_counters[of flt u "store y"] show ?thesis
      by (auto simp: read_counters_def pending_reads_def split: if_splits)
  next
    case False
    with Handle assms(2) other_requests_counters[of req flt "store y"] show ?thesis
      by (simp add: read_counters_def pending_reads_def)
  qed
next
  case (Resume i ok)
  with assms(1) have ok: ok by simp
  show ?thesis
  proof (cases "i < length (in_flight y)")
    case False
    with Resume assms(2) show ?thesis by simp
  next
    case True
    obtain uid pc where t: "in_flight y ! i = (uid, pc)"
      by (cases "in_flight y ! i")
    note eff = resume_effect[OF True t, of flt ok]
    note bal = read_step_balance(1)[of flt ok uid pc "store y"]
      read_step_balance(3)[OF ok, of flt uid pc "store y"]
    from assms(2) eff(2) bal show ?thesis
      unfolding Resume eff(1) by linarith
  qed
qed

lemma sys_run_bound:
  "cache_hits (ra_stats (store y)) + cache_misses (ra_stats (store y)) + pending_reads y
     \<le> total_reads (ra_stats (store y)) \<Longrightarrow>
   cache_hits (ra_stats (store (sys_run flt es y)))
     + cache_misses (ra_stats (store (sys_run flt es y))) + pending_reads (sys_run flt es y)
   \<le> total_reads (ra_stats (store (sys_run flt es y)))"
  by (induction es arbitrary: y) (simp_all add: sys_step_bound)

lemma sys_run_exact:
  "list_all cache_ok es \<Longrightarrow>
   cache_hits (ra_stats (store y)) + cache_misses (ra_stats (store y)) + pending_reads y
     = total_reads (ra_stats (store y)) \<Longrightarrow>
   cache_hits (ra_stats (store (sys_run flt es y)))
     + cache_misses (ra_stats (store (sys_run flt es y))) + pending_reads (sys_run flt es y)
   = total_reads (ra_stats (store (sys_run flt es y)))"
  by (induction es arbitrary: y) (simp_all add: sys_step_exact)

lemma sys_init_exact:
  "cache_hits (ra_stats (store (sys_init d))) + cache_misses (ra_stats (store (sys_init d)))
     + pending_reads (sys_init d) = total_reads (ra_stats (store (sys_init d)))"
  by (simp add: sys_init_def ra_init_def pending_reads_def)


lemmas sys_eval =
  lone_read_def overtaking_reads_def failing_read_def sys_init_def ra_init_def read_start_def
  alice_db_def alice_row_def no_faults_def db_select_def sent_def lookup_row_def redis_get_def
  ACCESS_THRESHOLD_def read_counters_def balanced_def pending_reads_def Let_def

text \<open>
  C9, as the code has it. A read adds one to \<open>total_reads\<close> when it starts; the step in
  which its cache lookup returns adds one to exactly one of \<open>cache_hits\<close> (the key is
  cached) and \<open>cache_misses\<close> (it is not); no other step of a read, no other request and
  no refresh tick changes the three counters. Reads wait between the two additions, so at
  every moment hits + misses + (reads in flight not yet counted) is at most reads; it
  equals reads as long as no cache call has raised, and then hits + misses = reads
  whenever no read is in flight. A read that runs alone on a working cache store is the
  handler taken as a whole, which keeps hits + misses = reads; such a read of an identity
  that neither store holds answers 404 and counts as a miss.
\<close>

theorem read_counters_interleaved:
  "read_counters (store (sys_step flt (StartRead uid) y))
     = (total_reads (ra_stats (store y)) + 1, cache_hits (ra_stats (store y)),
        cache_misses (ra_stats (store y)))
   \<and> (i < length (in_flight y) \<and> in_flight y ! i = (uid, pc) \<longrightarrow>
        read_counters (store (sys_step flt (Resume i ok) y))
          = (if pc = AtGet \<and> ok
             then (total_reads (ra_stats (store y)),
                   (if redis_get (ra_cache (store y)) uid \<noteq> None
                    then cache_hits (ra_stats (store y)) + 1 else cache_hits (ra_stats (store y))),
                   (if redis_get (ra_cache (store y)) uid \<noteq> None
                    then cache_misses (ra_stats (store y)) else cache_misses (ra_stats (store y)) + 1))
             else read_counters (store y)))
   \<and> ((\<forall>u. req \<noteq> GetUser u) \<longrightarrow>
        read_counters (store (sys_step flt (Handle req) y)) = read_counters (store y))
   \<and> cache_hits (ra_stats (store (sys_run flt es (sys_init d))))
       + cache_misses (ra_stats (store (sys_run flt es (sys_init d))))
       + pending_reads (sys_run flt es (sys_init d))
     \<le> total_reads (ra_stats (store (sys_run flt es (sys_init d))))
   \<and> (list_all cache_ok es \<longrightarrow>
        cache_hits (ra_stats (store (sys_run flt es (sys_init d))))
          + cache_misses (ra_stats (store (sys_run flt es (sys_init d))))
          + pending_reads (sys_run flt es (sys_init d))
        = total_reads (ra_stats (store (sys_run flt es (sys_init d)))))
   \<and> (list_all cache_ok es \<and> in_flight (sys_run flt es (sys_init d)) = [] \<longrightarrow>
        balanced (store (sys_run flt es (sys_init d))))
   \<and> read_resume flt 6 k AtTrack (read_start s)
       = (Finished (fst (ra_get_user_endpoint flt k s)), snd (ra_get_user_endpoint flt k s))
   \<and> (balanced s \<longrightarrow> balanced (snd (ra_get_user_endpoint flt k s)))
   \<and> (ra_cache s k = None \<and> lookup_row k (rows (ra_db s)) = None \<and> \<not> flt (calls (ra_db s)) \<longrightarrow>
        fst (ra_get_user_endpoint flt k s) = Response 404 None
        \<and> cache_misses (ra_stats (snd (ra_get_user_endpoint flt k s))) = cache_misses (ra_stats s) + 1)"
proof -
  have a: "read_counters (store (sys_step flt (StartRead uid) y))
     = (total_reads (ra_stats (store y)) + 1, cache_hits (ra_stats (store y)),
        cache_misses (ra_stats (store y)))"
    by (simp add: read_start_def read_counters_def)
  have b: "read_counters (store (sys_step flt (Resume i ok) y))
          = (if pc = AtGet \<and> ok
             then (total_reads (ra_stats (store y)),
                   (if redis_get (ra_cache (store y)) uid \<noteq> None
                    then cache_hits (ra_stats (store y)) + 1 else cache_hits (ra_stats (store y))),
                   (if redis_get (ra_cache (store y)) uid \<noteq> None
                    then cache_misses (ra_stats (store y)) else cache_misses (ra_stats (store y)) + 1))
             else read_counters (store y))"
    if "i < length (in_flight y)" "in_flight y ! i = (uid, pc)"
    using resume_effect(1)[OF that, of flt ok] read_step_counters[of flt ok uid pc "store y"]
    by simp
  have c: "read_counters (store (sys_step flt (Handle req) y)) = read_counters (store y)"
    if "\<forall>u. req \<noteq> GetUser u"
    using other_requests_counters[OF that, of flt "store y"] by simp
  note le = sys_run_bound[OF eq_refl[OF sys_init_exact], of flt es d]
  have e: "cache_hits (ra_stats (store (sys_run flt es (sys_init d))))
          + cache_misses (ra_stats (store (sys_run flt es (sys_init d))))
          + pending_reads (sys_run flt es (sys_init d))
        = total_reads (ra_stats (store (sys_run flt es (sys_init d))))"
    if "list_all cache_ok es"
    using sys_run_exact[OF that sys_init_exact] .
  have f: "balanced (store (sys_run flt es (sys_init d)))"
    if "list_all cache_ok es" "in_flight (sys_run flt es (sys_init d)) = []"
    using e[OF that(1)] that(2) by (simp add: balanced_def pending_reads_def)
  have g: "balanced (snd (ra_get_user_endpoint flt k s))" if "balanced s"
    using handle_balanced[OF that, of flt "GetUser k"] by simp
  have m: "cache_misses (ra_stats (snd (ra_get_user_endpoint flt k s))) = cache_misses (ra_stats s) + 1"
    if "ra_cache s k = None"
    using that get_endpoint_counters[of flt k s] by (simp add: read_counters_def redis_get_def)
  from a b c le e f g m read_alone[of flt k s] get_endpoint_missing[of s k flt]
  show ?thesis by blast
qed

theorem read_counters_interleaved_witness:
  "list_all cache_ok lone_read
   \<and> in_flight (sys_run no_faults lone_read (sys_init alice_db)) = []
   \<and> answered (sys_run no_faults lone_read (sys_init alice_db)) = [(9, Response 404 None)]
   \<and> balanced (store (sys_run no_faults lone_read (sys_init alice_db)))
   \<and> in_flight (sys_step no_faults (StartRead 7) (sys_init alice_db)) ! 0 = (7, AtTrack)
   \<and> read_counters (store (sys_step no_faults (Resume 0 True)
        (sys_step no_faults (StartRead 7) (sys_init alice_db)))) = (1, 0, 0)
   \<and> read_counters (store (sys_step no_faults (Handle RefreshTick) (sys_init alice_db))) = (0, 0, 0)
   \<and> balanced (ra_init alice_db)
   \<and> balanced (snd (ra_get_user_endpoint no_faults 9 (ra_init alice_db)))
   \<and> fst (ra_get_user_endpoint no_faults 9 (ra_init alice_db)) = Response 404 None
   \<and> cache_misses (ra_stats (snd (ra_get_user_endpoint no_faults 9 (ra_init alice_db)))) = 1"
proof -
  have h1: "list_all cache_ok lone_read"
    and h2: "in_flight (sys_run no_faults lone_read (sys_init alice_db)) = []"
    and h3: "answered (sys_run no_faults lone_read (sys_init alice_db)) = [(9, Response 404 None)]"
    by (simp_all add: sys_eval)
  have h4: "0 < length (in_flight (sys_step no_faults (StartRead 7) (sys_init alice_db)))"
    and h5: "in_flight (sys_step no_faults (StartRead 7) (sys_init alice_db)) ! 0 = (7, AtTrack)"
    and h6: "read_counters (store (sys_step no_faults (StartRead 7) (sys_init alice_db))) = (1, 0, 0)"
    and h7: "read_counters (store (sys_init alice_db)) = (0, 0, 0)"
    by (simp_all add: sys_eval)
  have h8: "\<forall>u. RefreshTick \<noteq> GetUser u" by simp
  have h9: "balanced (ra_init alice_db)"
    and h10: "ra_cache (ra_init alice_db) 9 = None"
    and h11: "lookup_row 9 (rows (ra_db (ra_init alice_db))) = None"
    and h12: "\<not> no_faults (calls (ra_db (ra_init alice_db)))"
    and h13: "cache_misses (ra_stats (ra_init alice_db)) = 0"
    by (simp_all add: sys_eval)
  note t1 = read_counters_interleaved[where flt = no_faults and es = lone_read and d = alice_db
      and y = "sys_step no_faults (StartRead 7) (sys_init alice_db)" and i = 0 and uid = 7
      and pc = AtTrack and ok = True and s = "ra_init alice_db" and k = 9]
  note t2 = read_counters_interleaved[where flt = no_faults and y = "sys_init alice_db"
      and req = RefreshTick]
  from t1 h1 h2 have c1: "balanced (store (sys_run no_faults lone_read (sys_init alice_db)))"
    by blast
  from t1 h4 h5 h6 have c2: "read_counters (store (sys_step no_faults (Resume 0 True)
        (sys_step no_faults (StartRead 7) (sys_init alice_db)))) = (1, 0, 0)"
    by simp
  from t2 h8 h7 have c3: "read_counters (store (sys_step no_faults (Handle RefreshTick) (sys_init alice_db)))
      = (0, 0, 0)"
    by simp
  from t1 h9 have c4: "balanced (snd (ra_get_user_endpoint no_faults 9 (ra_init alice_db)))"
    by blast
  from t1 h10 h11 h12 have c5: "fst (ra_get_user_endpoint no_faults 9 (ra_init alice_db)) = Response 404 None"
    and c6: "cache_misses (ra_stats (snd (ra_get_user_endpoint no_faults 9 (ra_init alice_db))))
      = cache_misses (ra_stats (ra_init alice_db)) + 1"
    by blast+
  from h1 h2 h3 c1 h5 c2 c3 h9 c4 c5 c6 h13 show ?thesis by simp
qed

theorem read_overtaken_counterexample:
  "answered (sys_run no_faults overtaking_reads (sys_init alice_db)) = [(9, Response 404 None)]
   \<and> in_flight (sys_run no_faults overtaking_reads (sys_init alice_db)) = [(7, AtTrack)]
   \<and> read_counters (store (sys_run no_faults overtaking_reads (sys_init alice_db))) = (2, 0, 1)
   \<and> \<not> balanced (store (sys_run no_faults overtaking_reads (sys_init alice_db)))
   \<and> answered (sys_run no_faults failing_read (sys_init alice_db)) = [(7, Unhandled RedisError)]
   \<and> in_flight (sys_run no_faults failing_read (sys_init alice_db)) = []
   \<and> read_counters (store (sys_run no_faults failing_read (sys_init alice_db))) = (1, 0, 0)
   \<and> \<not> balanced (store (sys_run no_faults failing_read (sys_init alice_db)))"
  by (simp add: sys_eval)

subsection \<open>The refresh tick\<close>

lemma below_threshold_iff: "below_threshold t \<longleftrightarrow> t < 15"
proof -
  have "of_int RA_CACHE_TTL * (1 - REFRESH_THRESHOLD) = (of_int 15 :: rat)"
    by (simp add: RA_CACHE_TTL_def REFRESH_THRESHOLD_def)
  then show ?thesis
    unfolding below_threshold_def by (simp only: of_int_less_iff)
qed

lemma refresh_user_frame:
  "hot_set (snd (refresh_user flt k s)) = hot_set s"
  "rows (ra_db (snd (refresh_user flt k s))) = rows (ra_db s)"
  "refresh_errors (snd (refresh_user flt k s)) = refresh_errors s"
  "j \<noteq> k \<Longrightarrow> ra_cache (snd (refresh_user flt k s)) j = ra_cache s j"
  by (auto simp: refresh_user_def db_select_def sent_def redis_setex_def split: option.splits)

lemma refresh_user_result:
  "ra_cache (snd (refresh_user flt k s)) k =
     (if flt (calls (ra_db s)) then ra_cache s k
      else case lookup_row k (rows (ra_db s)) of
             None \<Rightarrow> ra_cache s k
           | Some r \<Rightarrow> Some (user_of_row r, RA_CACHE_TTL))"
  "fst (refresh_user flt k s) = (if flt (calls (ra_db s)) then Inl ConnectionError else Inr ())"
  by (auto simp: refresh_user_def db_select_def sent_def redis_setex_def split: option.splits)

text \<open>One pass of the scan, by the lifetime that the cache store reports for the key.\<close>

lemma refresh_item_expired:
  "redis_ttl (ra_cache s) j \<le> 0 \<Longrightarrow> refresh_item flt j s = s\<lparr>hot_set := srem j (hot_set s)\<rparr>"
  by (simp add: refresh_item_def Let_def)

lemma refresh_item_fresh:
  "0 < redis_ttl (ra_cache s) j \<Longrightarrow> \<not> below_threshold (redis_ttl (ra_cache s) j) \<Longrightarrow>
   refresh_item flt j s = s"
  by (simp add: refresh_item_def Let_def)

lemma refresh_item_low:
  assumes "0 < redis_ttl (ra_cache s) j" and "below_threshold (redis_ttl (ra_cache s) j)"
  shows "hot_set (refresh_item flt j s) = hot_set s"
    and "rows (ra_db (refresh_item flt j s)) = rows (ra_db s)"
    and "ra_cache (refresh_item flt j s) = ra_cache (snd (refresh_user flt j s))"
    and "refresh_errors (refresh_item flt j s) =
           (if flt (calls (ra_db s)) then refresh_errors s @ [(j, ConnectionError)] else refresh_errors s)"
  using assms refresh_user_frame(1,2,3)[of flt j s] refresh_user_result(2)[of flt j s]
  by (auto simp: refresh_item_def Let_def split: prod.splits sum.splits)



lemma refresh_item_other: "j \<noteq> k \<Longrightarrow> ra_cache (refresh_item flt j s) k = ra_cache s k"
proof -
  assume "j \<noteq> k"
  then have o: "ra_cache (snd (refresh_user flt j s)) k = ra_cache s k"
    using refresh_user_frame(4)[of k j flt s] by simp
  consider "redis_ttl (ra_cache s) j \<le> 0"
    | "0 < redis_ttl (ra_cache s) j" "\<not> below_threshold (redis_ttl (ra_cache s) j)"
    | "0 < redis_ttl (ra_cache s) j" "below_threshold (redis_ttl (ra_cache s) j)"
    by linarith
  then show ?thesis
    by cases (simp_all add: refresh_item_expired refresh_item_fresh refresh_item_low o)
qed

lemma refresh_item_ttl_sign:
  "0 < redis_ttl (ra_cache (refresh_item flt j s)) k \<longleftrightarrow> 0 < redis_ttl (ra_cache s) k"
proof (cases "j = k")
  case False
  then show ?thesis by (simp add: redis_ttl_def refresh_item_other)
next
  case True
  consider "redis_ttl (ra_cache s) j \<le> 0"
    | "0 < redis_ttl (ra_cache s) j" "\<not> below_threshold (redis_ttl (ra_cache s) j)"
    | "0 < redis_ttl (ra_cache s) j" "below_threshold (redis_ttl (ra_cache s) j)"
    by linarith
  then show ?thesis
  proof cases
    case 3
    then show ?thesis
      using True refresh_user_result(1)[of flt j s]
      by (auto simp: refresh_item_low redis_ttl_def RA_CACHE_TTL_def split: option.splits if_splits)
  qed (simp_all add: refresh_item_expired refresh_item_fresh)
qed

lemma refresh_item_hot:
  "set (hot_set (refresh_item flt j s))
     = (if redis_ttl (ra_cache s) j \<le> 0 then set (hot_set s) - {j} else set (hot_set s))"
proof -
  consider "redis_ttl (ra_cache s) j \<le> 0"
    | "0 < redis_ttl (ra_cache s) j" "\<not> below_threshold (redis_ttl (ra_cache s) j)"
    | "0 < redis_ttl (ra_cache s) j" "below_threshold (redis_ttl (ra_cache s) j)"
    by linarith
  then show ?thesis
    by cases (simp_all add: refresh_item_expired refresh_item_fresh refresh_item_low srem_def)
qed

lemma refresh_items_hot:
  "set (hot_set (refresh_items flt ks s))
     = set (hot_set s) - {j \<in> set ks. redis_ttl (ra_cache s) j \<le> 0}"
proof (induction ks arbitrary: s)
  case Nil
  then show ?case by simp
next
  case (Cons j ks)
  have sign: "redis_ttl (ra_cache (refresh_item flt j s)) i \<le> 0 \<longleftrightarrow> redis_ttl (ra_cache s) i \<le> 0" for i
    using refresh_item_ttl_sign[of flt j s i] by linarith
  show ?case
    by (simp add: Cons.IH refresh_item_hot sign) blast
qed

lemma refresh_hot_items_hot:
  "set (hot_set (refresh_hot_items flt s)) = {j \<in> set (hot_set s). 0 < redis_ttl (ra_cache s) j}"
  by (auto simp: refresh_hot_items_def Let_def refresh_items_hot)


subsection \<open>Membership of the hot set\<close>

lemma track_access_hot: "set (hot_set s) \<subseteq> set (hot_set (track_access uid s))"
  by (auto simp: track_access_def sadd_def Let_def)

lemma get_endpoint_hot: "set (hot_set s) \<subseteq> set (hot_set (snd (ra_get_user_endpoint flt uid s)))"
proof -
  let ?s1 = "s\<lparr>ra_stats := (ra_stats s)\<lparr>total_reads := total_reads (ra_stats s) + 1\<rparr>\<rparr>"
  have "hot_set (snd (ra_get_user_endpoint flt uid s)) = hot_set (track_access uid ?s1)"
    by (simp add: ra_get_user_endpoint_def ra_get_user_def Let_def
        split: prod.splits sum.splits option.splits)
  then show ?thesis
    using track_access_hot[of ?s1 uid] by simp
qed

lemma delete_user_hot:
  "set (hot_set (snd (ra_delete_user flt uid s)))
     = (if fst (ra_delete_user flt uid s) = Inr True then set (hot_set s) - {uid} else set (hot_set s))"
  by (auto simp: ra_delete_user_def srem_def split: prod.splits sum.splits)

lemma delete_endpoint_state: "snd (ra_delete_user_endpoint flt uid s) = snd (ra_delete_user flt uid s)"
  by (simp add: ra_delete_user_endpoint_def split: prod.splits sum.splits bool.splits)

lemma handle_keeps_hot:
  assumes "k \<in> set (hot_set s)" and "req \<noteq> DeleteUser k" and "req \<noteq> RefreshTick"
  shows "k \<in> set (hot_set (ra_handle flt req s))"
proof (cases req)
  case (GetUser uid)
  then show ?thesis using assms(1) get_endpoint_hot[of s flt uid] by auto
next
  case (CreateUser u)
  then show ?thesis using assms(1)
    by (auto simp: ra_create_user_endpoint_def ra_create_user_def split: prod.splits sum.splits)
next
  case (UpdateUser uid u)
  then show ?thesis using assms(1)
    by (auto simp: ra_update_user_endpoint_def ra_update_user_def
        split: prod.splits sum.splits option.splits)
next
  case (DeleteUser uid)
  with assms(2) have "uid \<noteq> k" by simp
  with DeleteUser assms(1) show ?thesis
    by (simp add: delete_endpoint_state delete_user_hot)
next
  case RefreshTick
  with assms(3) show ?thesis by simp
qed (use assms(1) in simp_all)

text \<open>
  C6, as the code has it. A key of the hot set stays in it through every request and
  tick, with two exceptions: a refresh tick drops the key exactly when the cache store
  reports no positive remaining lifetime for it, and the delete of the key's entity drops
  it exactly when the durable delete removed a row.
\<close>

theorem hot_membership:
  assumes "k \<in> set (hot_set s)"
  shows "(req \<noteq> DeleteUser k \<and> req \<noteq> RefreshTick \<longrightarrow> k \<in> set (hot_set (ra_handle flt req s)))
    \<and> (k \<in> set (hot_set (ra_handle flt RefreshTick s)) \<longleftrightarrow> 0 < redis_ttl (ra_cache s) k)
    \<and> (k \<in> set (hot_set (ra_handle flt (DeleteUser k) s)) \<longleftrightarrow> fst (ra_delete_user flt k s) \<noteq> Inr True)"
proof -
  have a: "k \<in> set (hot_set (ra_handle flt RefreshTick s)) \<longleftrightarrow> 0 < redis_ttl (ra_cache s) k"
    using assms by (simp add: refresh_hot_items_hot)
  have b: "k \<in> set (hot_set (ra_handle flt (DeleteUser k) s)) \<longleftrightarrow> fst (ra_delete_user flt k s) \<noteq> Inr True"
    using assms by (simp add: delete_endpoint_state delete_user_hot)
  from a b handle_keeps_hot[OF assms, of req flt] show ?thesis by blast
qed

lemmas ra_eval =
  ra_hot_alice_def alice_db_def alice_row_def alice_def empty_db_def no_faults_def all_fail_def
  first_fails_def refresh_hot_items_def refresh_item_def refresh_user_def db_select_def
  db_delete_def sent_def lookup_row_def redis_ttl_def redis_setex_def redis_delete_def
  redis_get_def srem_def sadd_def scard_def below_threshold_iff user_of_row_def RA_CACHE_TTL_def
  ra_delete_user_endpoint_def ra_delete_user_def ra_get_user_endpoint_def ra_get_user_def
  track_access_def ACCESS_THRESHOLD_def Let_def

theorem hot_membership_witness:
  "7 \<in> set (hot_set (ra_hot_alice 30 alice_db))
   \<and> 7 \<in> set (hot_set (ra_handle no_faults (GetUser 7) (ra_hot_alice 30 alice_db)))
   \<and> 7 \<in> set (hot_set (ra_handle no_faults (DeleteUser 8) (ra_hot_alice 30 alice_db)))
   \<and> 7 \<in> set (hot_set (ra_handle no_faults RefreshTick (ra_hot_alice 30 alice_db)))
   \<and> 7 \<notin> set (hot_set (ra_handle no_faults RefreshTick (ra_hot_alice 0 alice_db)))"
proof -
  have h: "7 \<in> set (hot_set (ra_hot_alice t alice_db))" for t
    by (simp add: ra_hot_alice_def)
  have t: "redis_ttl (ra_cache (ra_hot_alice t alice_db)) 7 = t" for t
    by (simp add: ra_hot_alice_def redis_ttl_def)
  show ?thesis
    using h[of 30] hot_membership[OF h[of 30], of "GetUser 7" no_faults]
      hot_membership[OF h[of 30], of "DeleteUser 8" no_faults]
      hot_membership[OF h[of 0], of RefreshTick no_faults] t[of 30] t[of 0]
    by simp
qed

theorem delete_leaves_hot_set_counterexample:
  "7 \<in> set (hot_set (ra_hot_alice 30 alice_db))
   \<and> redis_ttl (ra_cache (ra_hot_alice 30 alice_db)) 7 = 30
   \<and> fst (ra_delete_user_endpoint no_faults 7 (ra_hot_alice 30 alice_db)) = Response 204 None
   \<and> 7 \<notin> set (hot_set (ra_handle no_faults (DeleteUser 7) (ra_hot_alice 30 alice_db)))"
  by (simp add: ra_eval)


subsection \<open>What a tick does to a hot key with a low lifetime\<close>






end
